theory Spec2Isabelle
  imports Complex_Main "HOL-Library.Word"
begin

section \<open>JavaScript values\<close>

text \<open>
  A JavaScript \<^verbatim>\<open>number\<close> is a double. It is modelled as the \<^typ>\<open>real\<close> it denotes; the
  infinities and NaN operands are outside the model. The one NaN the code can produce
  by itself, from reading an array outside its bounds (\<^verbatim>\<open>undefined\<close>), is modelled as
  \<^term>\<open>None\<close>, with the JavaScript meaning of every operation applied to it written out
  where it is used. Loop counters that the code keeps integral are \<^typ>\<open>int\<close>; a byte of a
  \<^verbatim>\<open>Uint8ClampedArray\<close> is an \<^typ>\<open>8 word\<close>.

  The result of an arithmetic operation on doubles is the exact result rounded to the
  nearest double (\<open>fl\<close> below). The rounding is written out in \<^verbatim>\<open>detect.ts\<close> and
  \<^verbatim>\<open>calibration.ts\<close>, whose numbers are fractions of a pixel: the rects and the
  calibration points come from the pointer. The operations left exact are those on the
  integers that the code keeps integral (counts, sums of counts, the pixel coordinates
  and indices of \<^verbatim>\<open>curve.ts\<close>, all far below \<open>2^53\<close>) and their halves, where doubles are
  exact, and the colour distance of \<^verbatim>\<open>curve.ts\<close>, an idealisation.
\<close>

type_synonym byte = "8 word"

text \<open>\<^verbatim>\<open>v | 0\<close>: truncation towards zero, then reduction to a signed 32-bit integer.\<close>

definition to_int32 :: "real \<Rightarrow> int" where
  "to_int32 v =
     (let n = (if 0 \<le> v then \<lfloor>v\<rfloor> else \<lceil>v\<rceil>);
          m = n mod 2 ^ 32
      in if 2 ^ 31 \<le> m then m - 2 ^ 32 else m)"

text \<open>\<^verbatim>\<open>a[i]\<close> on a typed array: \<^verbatim>\<open>undefined\<close> unless \<open>i\<close> is an integer within bounds.\<close>

definition js_get :: "'a list \<Rightarrow> real \<Rightarrow> 'a option" where
  "js_get a i =
     (if of_int \<lfloor>i\<rfloor> = i \<and> 0 \<le> i \<and> i < real (length a) then Some (a ! nat \<lfloor>i\<rfloor>) else None)"

text \<open>
  Rounding to the nearest double, ties to even: a double has a significand of 53 bits,
  so the doubles of the binade \<open>[2^e, 2^(e+1))\<close> are the multiples of \<open>2^(e-52)\<close>. The exponent
  range is taken as unbounded: no value of this program is near overflow or underflow.
  \<open>ilog2 x\<close> is the exponent \<open>e\<close> of the binade of \<open>x > 0\<close>.
\<close>

function ilog2 :: "real \<Rightarrow> int" where
  "ilog2 x =
     (if x < 1 then (if x \<le> 0 then 0 else ilog2 (x * 2) - 1)
      else if 2 \<le> x then ilog2 (x / 2) + 1
      else 0)"
  by pat_completeness auto
termination
proof (relation "measure (\<lambda>x. if 1 \<le> x then nat \<lfloor>x\<rfloor> else nat \<lceil>1 / x\<rceil> + 1)")
  show "wf (measure (\<lambda>x::real. if 1 \<le> x then nat \<lfloor>x\<rfloor> else nat \<lceil>1 / x\<rceil> + 1))"
    by simp
next
  fix x :: real
  assume a: "x < 1" "\<not> x \<le> 0"
  show "(x * 2, x) \<in> measure (\<lambda>x. if 1 \<le> x then nat \<lfloor>x\<rfloor> else nat \<lceil>1 / x\<rceil> + 1)"
  proof (cases "1 \<le> x * 2")
    case True
    then have "\<lfloor>x * 2\<rfloor> = 1" using a by linarith
    moreover have "1 < 1 / x" using a by simp
    then have "2 \<le> \<lceil>1 / x\<rceil>" by linarith
    ultimately show ?thesis using a True by simp
  next
    case False
    then have "2 < 1 / x" using a by (simp add: field_simps)
    moreover have "1 / (x * 2) = (1 / x) / 2" by simp
    ultimately have "\<lceil>1 / (x * 2)\<rceil> < \<lceil>1 / x\<rceil>" by linarith
    moreover have "0 < \<lceil>1 / x\<rceil>" using a by (simp add: zero_less_ceiling)
    ultimately show ?thesis using a False by simp
  qed
next
  fix x :: real
  assume a: "\<not> x < 1" "2 \<le> x"
  then have "\<lfloor>x / 2\<rfloor> < \<lfloor>x\<rfloor>" by linarith
  moreover have "0 < \<lfloor>x\<rfloor>" using a by simp
  ultimately show "(x / 2, x) \<in> measure (\<lambda>x. if 1 \<le> x then nat \<lfloor>x\<rfloor> else nat \<lceil>1 / x\<rceil> + 1)"
    using a by simp
qed

declare ilog2.simps [simp del]

definition rne :: "real \<Rightarrow> int" where
  "rne q =
     (let f = \<lfloor>q\<rfloor>;
          r = q - of_int f
      in if r < 1 / 2 then f
         else if 1 / 2 < r then f + 1
         else if even f then f else f + 1)"

definition fl :: "real \<Rightarrow> real" where
  "fl x =
     (if x = 0 then 0
      else
        let u = 2 powi (ilog2 \<bar>x\<bar> - 52)
        in sgn x * (of_int (rne (\<bar>x\<bar> / u)) * u))"

record Point =
  pt_x :: real
  pt_y :: real

record Rect =
  rect_x :: real
  rect_y :: real
  rect_w :: real
  rect_h :: real

record ImageData =
  data :: "byte list"
  width :: int
  height :: int

section \<open>detect.ts\<close>

text \<open>\<^verbatim>\<open>clampRect\<close>: the four differences are rounded, \<^verbatim>\<open>Math.max\<close> and \<^verbatim>\<open>Math.min\<close> are exact.\<close>

definition clampRect :: "Rect \<Rightarrow> real \<Rightarrow> real \<Rightarrow> Rect" where
  "clampRect r w h =
     (let x = max 0 (min (fl (w - 1)) (rect_x r));
          y = max 0 (min (fl (h - 1)) (rect_y r));
          rw = max 1 (min (fl (w - x)) (rect_w r));
          rh = max 1 (min (fl (h - y)) (rect_h r))
      in \<lparr>rect_x = x, rect_y = y, rect_w = rw, rect_h = rh\<rparr>)"

text \<open>
  The luminance expression of \<^verbatim>\<open>grayAt\<close> on three defined channels,
  \<^verbatim>\<open>r * 0.299 + g * 0.587 + b * 0.114\<close>: the literals are the doubles nearest to the
  decimals, and every product and sum is rounded.
\<close>

definition luminance :: "byte \<Rightarrow> byte \<Rightarrow> byte \<Rightarrow> real" where
  "luminance r g b =
     fl (fl (fl (real (unat r) * fl (299 / 1000)) + fl (real (unat g) * fl (587 / 1000)))
         + fl (real (unat b) * fl (114 / 1000)))"

text \<open>The weighted luminance of the spec, \<open>0.299 R + 0.587 G + 0.114 B\<close>, in exact arithmetic.\<close>

definition weighted_luminance :: "byte \<Rightarrow> byte \<Rightarrow> byte \<Rightarrow> real" where
  "weighted_luminance r g b =
     real (unat r) * (299 / 1000) + real (unat g) * (587 / 1000) + real (unat b) * (114 / 1000)"

text \<open>
  \<^verbatim>\<open>grayAt(data, idx)\<close>. A channel read outside the array is \<^verbatim>\<open>undefined\<close>, the sum is
  then NaN, and \<^verbatim>\<open>NaN | 0\<close> is 0.
\<close>

definition grayAt :: "byte list \<Rightarrow> real \<Rightarrow> int" where
  "grayAt d idx =
     (case (js_get d idx, js_get d (idx + 1), js_get d (idx + 2)) of
        (Some r, Some g, Some b) \<Rightarrow> to_int32 (luminance r g b)
      | _ \<Rightarrow> 0)"

text \<open>
  The index of the pixel \<open>(x, y)\<close> in the data of an image of the width \<open>w\<close>,
  \<^verbatim>\<open>(y * width + x) * 4\<close>, as \<^verbatim>\<open>otsuThresholdFromRect\<close> and \<^verbatim>\<open>isInk\<close> compute it: the
  product, the sum and the product by 4 are rounded.
\<close>

definition pixel_index :: "int \<Rightarrow> real \<Rightarrow> real \<Rightarrow> real" where
  "pixel_index w x y = fl (fl (fl (y * real_of_int w) + x) * 4)"

text \<open>
  \<^verbatim>\<open>otsuThresholdFromRect\<close>, first phase: the 256-bin histogram of the gray values of
  the pixels of the rect, and their number. The bounds of the two loops are 32-bit
  integers (\<^verbatim>\<open>| 0\<close>), the upper ones of the rounded sums \<^verbatim>\<open>rect.x + rect.w\<close> and
  \<^verbatim>\<open>rect.y + rect.h\<close>, so the counters are integers. \<^verbatim>\<open>hist[g]++\<close> is \<open>hist_add\<close>; the gray
  value is always an index of the histogram (lemma \<open>grayAt_range\<close> below).
\<close>

definition hist_add :: "nat list \<Rightarrow> int \<Rightarrow> nat list" where
  "hist_add hist g = hist[nat g := Suc (hist ! nat g)]"

definition otsu_histogram :: "ImageData \<Rightarrow> Rect \<Rightarrow> nat list \<times> int" where
  "otsu_histogram img rect =
     (let x0 = to_int32 (rect_x rect);
          y0 = to_int32 (rect_y rect);
          x1 = to_int32 (fl (rect_x rect + rect_w rect));
          y1 = to_int32 (fl (rect_y rect + rect_h rect))
      in fold (\<lambda>y. fold (\<lambda>x (hist, totalN).
                let idx = pixel_index (width img) (real_of_int x) (real_of_int y);
                    g = grayAt (data img) idx
                in (hist_add hist g, totalN + 1)) [x0..x1 - 1])
           [y0..y1 - 1] (replicate 256 0, 0))"

text \<open>
  Second phase: the scan over the candidate thresholds \<open>t\<close>, with the running state
  \<open>(sumB, wB, varMax, threshold)\<close> (\<open>sumAll\<close> and \<open>totalN\<close> are the source's \<open>sum\<close> and
  \<open>total\<close>); \<^verbatim>\<open>continue\<close> goes on with the next \<open>t\<close>, \<^verbatim>\<open>break\<close> returns the threshold chosen
  so far. The counts and their sums are integers; the two divisions, the subtraction
  and the three multiplications of \<^verbatim>\<open>wB * wF * (mB - mF) * (mB - mF)\<close> are rounded by \<open>rnd\<close>.
  The code is the scan with \<open>rnd = fl\<close>; with \<open>rnd = (\<lambda>v. v)\<close> it is the scan in exact
  arithmetic.
\<close>

fun otsu_scan ::
  "(real \<Rightarrow> real) \<Rightarrow> nat list \<Rightarrow> int \<Rightarrow> int \<Rightarrow> nat list \<Rightarrow> int \<times> int \<times> real \<times> int \<Rightarrow> int" where
  "otsu_scan rnd hist totalN sumAll [] (sumB, wB, varMax, threshold) = threshold"
| "otsu_scan rnd hist totalN sumAll (t # ts) (sumB, wB, varMax, threshold) =
     (let wB' = wB + int (hist ! t)
      in if wB' = 0 then otsu_scan rnd hist totalN sumAll ts (sumB, wB', varMax, threshold)
         else
           let wF = totalN - wB'
           in if wF = 0 then threshold
              else
                let sumB' = sumB + int t * int (hist ! t);
                    mB = rnd (real_of_int sumB' / real_of_int wB');
                    mF = rnd (real_of_int (sumAll - sumB') / real_of_int wF);
                    varBetween =
                      rnd (rnd (rnd (real_of_int wB' * real_of_int wF) * rnd (mB - mF)) * rnd (mB - mF))
                in if varBetween > varMax
                   then otsu_scan rnd hist totalN sumAll ts (sumB', wB', varBetween, int t)
                   else otsu_scan rnd hist totalN sumAll ts (sumB', wB', varMax, threshold))"

definition otsu_select :: "(real \<Rightarrow> real) \<Rightarrow> nat list \<Rightarrow> int \<Rightarrow> int" where
  "otsu_select rnd hist totalN =
     (if totalN \<le> 0 then 128
      else
        let sumAll = fold (\<lambda>t s. s + int t * int (hist ! t)) [0..<256] 0
        in otsu_scan rnd hist totalN sumAll [0..<256] (0, 0, -1, 128))"

definition otsuThresholdFromRect :: "ImageData \<Rightarrow> Rect \<Rightarrow> int" where
  "otsuThresholdFromRect img rect =
     (let (hist, totalN) = otsu_histogram img rect
      in otsu_select fl hist totalN)"

text \<open>\<^verbatim>\<open>buildInkFn\<close> returns the threshold and the ink predicate closed over it.\<close>

definition buildInkFn :: "ImageData \<Rightarrow> Rect \<Rightarrow> int \<times> (real \<Rightarrow> real \<Rightarrow> bool)" where
  "buildInkFn img rectForThresh =
     (let th = otsuThresholdFromRect img rectForThresh
      in (th, \<lambda>x y.
            let idx = pixel_index (width img) x y
            in grayAt (data img) idx < th))"

text \<open>
  \<^verbatim>\<open>findXAxisY\<close>. The fields of the rect are doubles, not necessarily integers, so the
  counters of the two loops step through doubles: \<^verbatim>\<open>x++\<close> is \<open>fl (x + 1)\<close>, and the bound
  \<^verbatim>\<open>r.x + r.w\<close> is rounded. A counter so large that \<open>x + 1\<close> rounds to \<open>x\<close> does not advance
  and the loop does not end: the loops are partial functions, \<^term>\<open>None\<close> meaning that the
  loop does not return. The inner loop counts the ink of one row.
\<close>

partial_function (option) row_ink ::
  "(real \<Rightarrow> real \<Rightarrow> bool) \<Rightarrow> Rect \<Rightarrow> real \<Rightarrow> real \<Rightarrow> int \<Rightarrow> int option" where
  "row_ink isInk r y x s =
     (if x < fl (rect_x r + rect_w r)
      then row_ink isInk r y (fl (x + 1)) (if isInk x y then s + 1 else s)
      else Some s)"

partial_function (option) findXAxisY_loop ::
  "(real \<Rightarrow> real \<Rightarrow> bool) \<Rightarrow> Rect \<Rightarrow> real \<Rightarrow> int \<Rightarrow> real \<Rightarrow> real option" where
  "findXAxisY_loop isInk r y best bestY =
     (if y < fl (rect_y r + rect_h r) then
        Option.bind (row_ink isInk r y (rect_x r) 0) (\<lambda>s.
          if s > best then findXAxisY_loop isInk r (fl (y + 1)) s y
          else findXAxisY_loop isInk r (fl (y + 1)) best bestY)
      else Some bestY)"

definition findXAxisY :: "ImageData \<Rightarrow> Rect \<Rightarrow> (real \<Rightarrow> real \<Rightarrow> bool) \<Rightarrow> real option" where
  "findXAxisY img roi isInk =
     (let r = clampRect roi (real_of_int (width img)) (real_of_int (height img))
      in findXAxisY_loop isInk r (rect_y r) (-1) (rect_y r))"

text \<open>\<^verbatim>\<open>findYAxisX\<close>: the same with the roles of the columns and the rows exchanged.\<close>

partial_function (option) col_ink ::
  "(real \<Rightarrow> real \<Rightarrow> bool) \<Rightarrow> Rect \<Rightarrow> real \<Rightarrow> real \<Rightarrow> int \<Rightarrow> int option" where
  "col_ink isInk r x y s =
     (if y < fl (rect_y r + rect_h r)
      then col_ink isInk r x (fl (y + 1)) (if isInk x y then s + 1 else s)
      else Some s)"

partial_function (option) findYAxisX_loop ::
  "(real \<Rightarrow> real \<Rightarrow> bool) \<Rightarrow> Rect \<Rightarrow> real \<Rightarrow> int \<Rightarrow> real \<Rightarrow> real option" where
  "findYAxisX_loop isInk r x best bestX =
     (if x < fl (rect_x r + rect_w r) then
        Option.bind (col_ink isInk r x (rect_y r) 0) (\<lambda>s.
          if s > best then findYAxisX_loop isInk r (fl (x + 1)) s x
          else findYAxisX_loop isInk r (fl (x + 1)) best bestX)
      else Some bestX)"

definition findYAxisX :: "ImageData \<Rightarrow> Rect \<Rightarrow> (real \<Rightarrow> real \<Rightarrow> bool) \<Rightarrow> real option" where
  "findYAxisX img roi isInk =
     (let r = clampRect roi (real_of_int (width img)) (real_of_int (height img))
      in findYAxisX_loop isInk r (rect_x r) (-1) (rect_x r))"







text \<open>
  The axis locator in the spec's words, for comparison with \<open>findXAxisY\<close> and
  \<open>findYAxisX\<close>: the rows (columns) of a rect are the values that the counter of
  \<^verbatim>\<open>for (v = a; v < b; v++)\<close> takes, in order, and the ink count of a row (column) is the
  number of the columns (rows) of the rect where the pixel is ink.
\<close>

partial_function (option) scan_positions :: "real \<Rightarrow> real \<Rightarrow> real list option" where
  "scan_positions a b =
     (if a < b then Option.bind (scan_positions (fl (a + 1)) b) (\<lambda>vs. Some (a # vs))
      else Some [])"

definition row_ink_count :: "(real \<Rightarrow> real \<Rightarrow> bool) \<Rightarrow> real list \<Rightarrow> real \<Rightarrow> int" where
  "row_ink_count isInk cols y = int (length (filter (\<lambda>x. isInk x y) cols))"

definition col_ink_count :: "(real \<Rightarrow> real \<Rightarrow> bool) \<Rightarrow> real list \<Rightarrow> real \<Rightarrow> int" where
  "col_ink_count isInk rows x = int (length (filter (\<lambda>y. isInk x y) rows))"

section \<open>calibration.ts\<close>

text \<open>
  Every difference, product, sum and quotient is rounded. \<^verbatim>\<open>Math.hypot\<close> is taken as the
  correctly rounded hypotenuse (ECMAScript leaves its accuracy to the implementation);
  the literals \<^verbatim>\<open>1e-9\<close> and \<^verbatim>\<open>1e-6\<close> are the doubles nearest to the decimals.
\<close>

definition dot :: "Point \<Rightarrow> Point \<Rightarrow> real" where
  "dot a b = fl (fl (pt_x a * pt_x b) + fl (pt_y a * pt_y b))"

definition sub :: "Point \<Rightarrow> Point \<Rightarrow> Point" where
  "sub a b = \<lparr>pt_x = fl (pt_x a - pt_x b), pt_y = fl (pt_y a - pt_y b)\<rparr>"

text \<open>\<^verbatim>\<open>norm\<close>, that is \<^verbatim>\<open>Math.hypot(a.x, a.y)\<close>.\<close>

definition norm_pt :: "Point \<Rightarrow> real" where
  "norm_pt a = fl (sqrt ((pt_x a)\<^sup>2 + (pt_y a)\<^sup>2))"

definition normalize_pt :: "Point \<Rightarrow> Point" where
  "normalize_pt a =
     (let n = norm_pt a
      in if n < fl (1 / 10 ^ 9) then \<lparr>pt_x = 1, pt_y = 0\<rparr>
         else \<lparr>pt_x = fl (pt_x a / n), pt_y = fl (pt_y a / n)\<rparr>)"

datatype error = DegenerateCalibration

record DataPoint =
  data_X :: real
  data_Y :: real

definition buildPixelToDataMapper ::
  "Point \<Rightarrow> Point \<Rightarrow> Point \<Rightarrow> Point \<Rightarrow> real \<Rightarrow> real \<Rightarrow> real \<Rightarrow> real \<Rightarrow> error + (Point \<Rightarrow> DataPoint)" where
  "buildPixelToDataMapper pxX1 pxX2 pxY1 pxY2 x1 x2 y1 y2 =
     (let vx = normalize_pt (sub pxX2 pxX1);
          vy = normalize_pt (sub pxY2 pxY1);
          dx = sub pxX2 pxX1;
          dy = sub pxY2 pxY1;
          denomX = dot dx vx;
          denomY = dot dy vy
      in if \<bar>denomX\<bar> < fl (1 / 10 ^ 6) \<or> \<bar>denomY\<bar> < fl (1 / 10 ^ 6) then Inl DegenerateCalibration
         else
           let sx = fl (fl (x2 - x1) / denomX);
               sy = fl (fl (y2 - y1) / denomY)
           in Inr (\<lambda>p.
                let relX = dot (sub p pxX1) vx;
                    relY = dot (sub p pxY1) vy
                in \<lparr>data_X = fl (x1 + fl (sx * relX)), data_Y = fl (y1 + fl (sy * relY))\<rparr>))"


section \<open>curve.ts\<close>

definition clamp :: "int \<Rightarrow> int \<Rightarrow> int \<Rightarrow> int" where
  "clamp v lo hi = max lo (min hi v)"

text \<open>\<^verbatim>\<open>Math.round\<close>: the nearest integer, a half rounded up.\<close>

definition js_round :: "real \<Rightarrow> int" where
  "js_round v = \<lfloor>v + 1 / 2\<rfloor>"

record Color =
  col_r :: real
  col_g :: real
  col_b :: real

text \<open>
  \<^verbatim>\<open>distRgb\<close> on three channel reads: with an \<^verbatim>\<open>undefined\<close> channel the difference and
  so \<^verbatim>\<open>Math.hypot\<close> are NaN, here \<^term>\<open>None\<close>.
\<close>

definition distRgb :: "byte option \<Rightarrow> byte option \<Rightarrow> byte option \<Rightarrow> Color \<Rightarrow> real option" where
  "distRgb r g b c =
     (case (r, g, b) of
        (Some r', Some g', Some b') \<Rightarrow>
          let dr = real (unat r') - col_r c;
              dg = real (unat g') - col_g c;
              db = real (unat b') - col_b c
          in Some (sqrt (dr\<^sup>2 + dg\<^sup>2 + db\<^sup>2))
      | _ \<Rightarrow> None)"

record Run =
  ymin :: int
  ymax :: int

text \<open>
  The value of \<^verbatim>\<open>ok\<close> at the end of the first half of the loop body of
  \<^verbatim>\<open>findRunsInColumn\<close>; \<^verbatim>\<open>NaN >= threshold\<close> is false, so \<^verbatim>\<open>ok\<close> stays true there.
\<close>

definition pixel_ok :: "ImageData \<Rightarrow> int \<Rightarrow> Color \<Rightarrow> real \<Rightarrow> (Point \<Rightarrow> bool) \<Rightarrow> int \<Rightarrow> bool" where
  "pixel_ok roi x pickedColor threshold isBlacklistedPixel y =
     (let p = \<lparr>pt_x = real_of_int x, pt_y = real_of_int y\<rparr>
      in if isBlacklistedPixel p then False
         else
           let idx = real_of_int ((y * width roi + x) * 4);
               r = js_get (data roi) idx;
               g = js_get (data roi) (idx + 1);
               b = js_get (data roi) (idx + 2)
           in (case distRgb r g b pickedColor of
                 Some d \<Rightarrow> \<not> (d \<ge> threshold)
               | None \<Rightarrow> True))"

text \<open>The loop of \<^verbatim>\<open>findRunsInColumn\<close> over the rows, with the state \<open>(inRun, runStart, runs)\<close>.\<close>

fun runs_loop :: "(int \<Rightarrow> bool) \<Rightarrow> int list \<Rightarrow> bool \<times> int \<times> Run list \<Rightarrow> bool \<times> int \<times> Run list" where
  "runs_loop ok [] st = st"
| "runs_loop ok (y # ys) (inRun, runStart, runs) =
     (if ok y \<and> \<not> inRun then runs_loop ok ys (True, y, runs)
      else if \<not> ok y \<and> inRun then
        runs_loop ok ys (False, runStart, runs @ [\<lparr>ymin = runStart, ymax = y - 1\<rparr>])
      else runs_loop ok ys (inRun, runStart, runs))"

definition findRunsInColumn :: "ImageData \<Rightarrow> int \<Rightarrow> Color \<Rightarrow> real \<Rightarrow> (Point \<Rightarrow> bool) \<Rightarrow> Run list" where
  "findRunsInColumn roi x pickedColor threshold isBlacklistedPixel =
     (let (inRun, runStart, runs) =
            runs_loop (pixel_ok roi x pickedColor threshold isBlacklistedPixel)
              [0..height roi - 1] (False, 0, [])
      in if inRun then runs @ [\<lparr>ymin = runStart, ymax = height roi - 1\<rparr>] else runs)"

datatype Mode = Centerline | Median

definition runRepresentativeY :: "Run \<Rightarrow> Mode \<Rightarrow> real" where
  "runRepresentativeY run mode =
     (let mid = real_of_int (ymin run + ymax run) / 2
      in if mode = Median then real_of_int \<lfloor>mid\<rfloor> else mid)"

text \<open>
  The loop that \<^verbatim>\<open>chooseInitialY\<close> and \<^verbatim>\<open>chooseNextY\<close> both run over all the runs, with
  the state \<open>(bestY, bestD)\<close> and the target \<open>seedY\<close>, respectively \<open>yPred\<close>.
\<close>

fun nearest_loop :: "Mode \<Rightarrow> real \<Rightarrow> Run list \<Rightarrow> real \<times> real \<Rightarrow> real \<times> real" where
  "nearest_loop mode target [] st = st"
| "nearest_loop mode target (r # rs) (bestY, bestD) =
     (let y = runRepresentativeY r mode;
          d = \<bar>y - target\<bar>
      in if d < bestD then nearest_loop mode target rs (y, d)
         else nearest_loop mode target rs (bestY, bestD))"

definition chooseInitialY :: "Run list \<Rightarrow> real \<Rightarrow> Mode \<Rightarrow> real option" where
  "chooseInitialY runs seedY mode =
     (if length runs = 0 then None
      else
        let bestY = runRepresentativeY (runs ! 0) mode;
            bestD = \<bar>bestY - seedY\<bar>;
            (bestY', bestD') = nearest_loop mode seedY runs (bestY, bestD)
        in Some bestY')"

definition chooseNextY :: "Run list \<Rightarrow> real \<Rightarrow> real option \<Rightarrow> Mode \<Rightarrow> real \<Rightarrow> real option" where
  "chooseNextY runs yPrev yPrev2 mode maxJump =
     (if length runs = 0 then None
      else
        let yPred = (case yPrev2 of None \<Rightarrow> yPrev | Some p2 \<Rightarrow> yPrev + (yPrev - p2));
            bestY = runRepresentativeY (runs ! 0) mode;
            bestD = \<bar>bestY - yPred\<bar>;
            (bestY', bestD') = nearest_loop mode yPred runs (bestY, bestD)
        in if bestD' > maxJump then None else Some bestY')"

text \<open>The direction of a trace, \<^verbatim>\<open>dir: -1 | 1\<close>.\<close>

datatype Dir = Minus | Plus

fun dir_step :: "Dir \<Rightarrow> int" where
  "dir_step Minus = -1"
| "dir_step Plus = 1"

text \<open>
  \<^verbatim>\<open>traceDir\<close>, the closure of \<^verbatim>\<open>traceCurveWithSeeds\<close>, with what it captures as
  parameters. One unfolding is one turn of its \<^verbatim>\<open>while (true)\<close>: the point pushed, then
  the two \<^verbatim>\<open>break\<close>s, then the next turn.
\<close>

function traceDir ::
  "ImageData \<Rightarrow> Color \<Rightarrow> real \<Rightarrow> Mode \<Rightarrow> real \<Rightarrow> (Point \<Rightarrow> bool) \<Rightarrow> Dir \<Rightarrow> int \<Rightarrow> real \<Rightarrow> real option
     \<Rightarrow> Point list" where
  "traceDir roi pickedColor threshold mode maxJump isBlacklistedPixel dir x yPrev yPrev2 =
     \<lparr>pt_x = real_of_int x, pt_y = yPrev\<rparr> #
     (let xn = x + dir_step dir
      in if xn < 0 \<or> xn \<ge> width roi then []
         else
           let runs = findRunsInColumn roi xn pickedColor threshold isBlacklistedPixel
           in (case chooseNextY runs yPrev yPrev2 mode maxJump of
                 None \<Rightarrow> []
               | Some yNext \<Rightarrow>
                   traceDir roi pickedColor threshold mode maxJump isBlacklistedPixel dir xn yNext
                     (Some yPrev)))"
  by pat_completeness auto
termination
  by (relation "measure (\<lambda>(roi, pickedColor, threshold, mode, maxJump, isBlacklistedPixel, dir, x, yPrev, yPrev2).
        case dir of Plus \<Rightarrow> nat (width roi - x) | Minus \<Rightarrow> nat (x + 1))")
     (auto split: Dir.splits)

declare traceDir.simps [simp del]

definition traceCurveWithSeeds ::
  "ImageData \<Rightarrow> Point list \<Rightarrow> Color \<Rightarrow> real \<Rightarrow> Mode \<Rightarrow> real \<Rightarrow> (Point \<Rightarrow> bool) \<Rightarrow> Point list" where
  "traceCurveWithSeeds roi seeds pickedColor threshold mode maxJump isBlacklistedPixel =
     (let W = width roi;
          H = height roi
      in if W \<le> 0 \<or> H \<le> 0 then []
         else if length seeds < 3 then []
         else
           let sortedSeeds = sort_key pt_x seeds;
               sMid = sortedSeeds ! 1;
               x0 = clamp (js_round (pt_x sMid)) 0 (W - 1);
               runs0 = findRunsInColumn roi x0 pickedColor threshold isBlacklistedPixel
           in (case chooseInitialY runs0 (pt_y sMid) mode of
                 None \<Rightarrow> []
               | Some y0 \<Rightarrow>
                   let right = traceDir roi pickedColor threshold mode maxJump isBlacklistedPixel Plus x0 y0 None;
                       left = traceDir roi pickedColor threshold mode maxJump isBlacklistedPixel Minus x0 y0 None;
                       leftInc = rev left;
                       merged = leftInc @ drop 1 right
                   in merged))"

text \<open>
  The prediction of the tracer in the spec's words, for comparison with \<open>chooseNextY\<close>:
  the linear extrapolation from the two prior points, or the prior point when there is
  no second one; and the second prior point at the \<open>i\<close>-th point of a trace that was
  started with \<open>yPrev2\<close>.
\<close>

definition yPred_of :: "real \<Rightarrow> real option \<Rightarrow> real" where
  "yPred_of yPrev yPrev2 = (case yPrev2 of None \<Rightarrow> yPrev | Some p2 \<Rightarrow> yPrev + (yPrev - p2))"

definition prior2 :: "real option \<Rightarrow> Point list \<Rightarrow> nat \<Rightarrow> real option" where
  "prior2 yPrev2 pts i = (if i = 0 then yPrev2 else Some (pt_y (pts ! (i - 1))))"

text \<open>
  A 3 by 4 image for evaluating the tracer: red curve pixels at \<open>(0, 0)\<close>, \<open>(1, 0)\<close> and
  \<open>(2, 3)\<close> on a background at the distance 100 from red.
\<close>

definition example_image :: ImageData where
  "example_image =
     \<lparr>data = [255, 0, 0, 255,   255, 0, 0, 255,   255, 0, 100, 255,
              255, 0, 100, 255, 255, 0, 100, 255, 255, 0, 100, 255,
              255, 0, 100, 255, 255, 0, 100, 255, 255, 0, 100, 255,
              255, 0, 100, 255, 255, 0, 100, 255, 255, 0, 0, 255],
      width = 3, height = 4\<rparr>"

definition example_red :: Color where
  "example_red = \<lparr>col_r = 255, col_g = 0, col_b = 0\<rparr>"

section \<open>Rounding\<close>

text \<open>The binade of a positive number, and that it determines the exponent.\<close>

lemma ilog2_bounds: "0 < x \<Longrightarrow> 2 powi ilog2 x \<le> x \<and> x < 2 powi (ilog2 x + 1)"
proof (induction x rule: ilog2.induct)
  case (1 x)
  show ?case
  proof (cases "x < 1")
    case True
    with 1 have ih: "2 powi ilog2 (x * 2) \<le> x * 2 \<and> x * 2 < 2 powi (ilog2 (x * 2) + 1)"
      by simp
    have e: "ilog2 x = ilog2 (x * 2) - 1"
      using True 1(3) by (subst ilog2.simps) simp
    have "2 powi (ilog2 (x * 2)) = 2 * (2::real) powi (ilog2 (x * 2) - 1)"
      by (simp add: power_int_diff)
    moreover have "2 powi (ilog2 (x * 2) + 1) = 2 * (2::real) powi (ilog2 (x * 2))"
      by (simp add: power_int_add)
    ultimately show ?thesis using ih unfolding e by simp
  next
    case False
    show ?thesis
    proof (cases "2 \<le> x")
      case True
      with False 1 have ih: "2 powi ilog2 (x / 2) \<le> x / 2 \<and> x / 2 < 2 powi (ilog2 (x / 2) + 1)"
        by simp
      have e: "ilog2 x = ilog2 (x / 2) + 1"
        using True False by (subst ilog2.simps) simp
      have "2 powi (ilog2 (x / 2) + 1) = 2 * (2::real) powi (ilog2 (x / 2))"
        by (simp add: power_int_add)
      moreover have "2 powi (ilog2 (x / 2) + 1 + 1) = 2 * (2 * (2::real) powi (ilog2 (x / 2)))"
        by (simp add: power_int_add)
      ultimately show ?thesis using ih unfolding e by simp
    next
      case F2: False
      have e: "ilog2 x = 0"
        using F2 False by (subst ilog2.simps) simp
      show ?thesis using F2 False unfolding e by simp
    qed
  qed
qed


lemma ilog2_unique:
  assumes "0 < x" and "2 powi e \<le> x" and "x < 2 powi (e + 1)"
  shows "ilog2 x = e"
proof (rule ccontr)
  assume ne: "ilog2 x \<noteq> e"
  note b = ilog2_bounds[OF assms(1)]
  show False
  proof (cases "ilog2 x < e")
    case True
    then have "(2::real) powi (ilog2 x + 1) \<le> 2 powi e"
      by (intro power_int_increasing) auto
    with b assms(2) show False by linarith
  next
    case False
    with ne have "(2::real) powi (e + 1) \<le> 2 powi ilog2 x"
      by (intro power_int_increasing) auto
    with b assms(3) show False by linarith
  qed
qed

lemma ilog2_double: "0 < x \<Longrightarrow> ilog2 (2 * x) = ilog2 x + 1"
proof (rule ilog2_unique)
  assume x: "0 < x"
  note b = ilog2_bounds[OF x]
  show "0 < 2 * x" using x by simp
  have "2 powi (ilog2 x + 1) = 2 * (2::real) powi ilog2 x" by (simp add: power_int_add)
  then show "2 powi (ilog2 x + 1) \<le> 2 * x" using b by simp
  have "2 powi (ilog2 x + 1 + 1) = 2 * (2::real) powi (ilog2 x + 1)" by (simp add: power_int_add)
  then show "2 * x < 2 powi (ilog2 x + 1 + 1)" using b by simp
qed

text \<open>Doubling commutes with rounding: the significand is the same.\<close>

lemma fl_double: "fl (2 * x) = 2 * fl x"
proof (cases "x = 0")
  case True
  then show ?thesis by (simp add: fl_def)
next
  case False
  then have pos: "0 < \<bar>x\<bar>" by simp
  have e: "ilog2 \<bar>2 * x\<bar> = ilog2 \<bar>x\<bar> + 1"
    using ilog2_double[OF pos] by (simp add: abs_mult)
  have u: "2 powi (ilog2 \<bar>x\<bar> + 1 - 52) = 2 * (2::real) powi (ilog2 \<bar>x\<bar> - 52)"
    using power_int_add[of "2::real" "ilog2 \<bar>x\<bar> - 52" 1] by (simp add: add.commute)
  have q: "\<bar>2 * x\<bar> / (2 * (2::real) powi (ilog2 \<bar>x\<bar> - 52)) = \<bar>x\<bar> / 2 powi (ilog2 \<bar>x\<bar> - 52)"
    by (simp add: abs_mult)
  have s: "sgn (2 * x) = sgn x" by (simp add: sgn_mult)
  show ?thesis
    using False unfolding fl_def Let_def e u q s by simp
qed

lemma fl_pow2: "fl (2 ^ j * x) = 2 ^ j * fl x"
proof (induction j)
  case 0
  show ?case by simp
next
  case (Suc j)
  have "fl (2 ^ Suc j * x) = fl (2 * (2 ^ j * x))" by (simp add: mult.assoc)
  also have "\<dots> = 2 * fl (2 ^ j * x)" by (rule fl_double)
  finally show ?case using Suc by simp
qed

text \<open>Rounding keeps the sign, and its relative error is at most \<open>2^-53\<close>.\<close>

lemma rne_nonneg: "0 \<le> q \<Longrightarrow> 0 \<le> rne q"
  by (auto simp add: rne_def Let_def)

lemma rne_error: "\<bar>real_of_int (rne q) - q\<bar> \<le> 1 / 2"
  unfolding rne_def Let_def by (auto simp add: abs_le_iff)

lemma fl_nonneg: "0 \<le> x \<Longrightarrow> 0 \<le> fl x"
  by (auto simp add: fl_def Let_def rne_nonneg sgn_if)

lemma fl_nonpos: "x \<le> 0 \<Longrightarrow> fl x \<le> 0"
proof (cases "x = 0")
  case True
  then show ?thesis by (simp add: fl_def)
next
  case False
  assume "x \<le> 0"
  with False have neg: "x < 0" by simp
  have "0 \<le> rne (\<bar>x\<bar> / 2 powi (ilog2 \<bar>x\<bar> - 52))"
    by (rule rne_nonneg) simp
  then have "0 \<le> real_of_int (rne (\<bar>x\<bar> / 2 powi (ilog2 \<bar>x\<bar> - 52))) * 2 powi (ilog2 \<bar>x\<bar> - 52)"
    by simp
  then show ?thesis using neg False by (simp add: fl_def Let_def sgn_if)
qed

lemma fl_error: "\<bar>fl x - x\<bar> \<le> \<bar>x\<bar> / 2 ^ 53"
proof (cases "x = 0")
  case True
  then show ?thesis by (simp add: fl_def)
next
  case False
  then have pos: "0 < \<bar>x\<bar>" by simp
  define u :: real where "u = 2 powi (ilog2 \<bar>x\<bar> - 52)"
  have upos: "0 < u" by (simp add: u_def)
  define n where "n = rne (\<bar>x\<bar> / u)"
  have flx: "fl x = sgn x * (real_of_int n * u)"
    using False by (simp add: fl_def Let_def u_def n_def)
  have "x = sgn x * \<bar>x\<bar>" by (simp add: sgn_if)
  then have "fl x - x = sgn x * (real_of_int n * u - \<bar>x\<bar>)"
    unfolding flx by (simp add: algebra_simps)
  then have "\<bar>fl x - x\<bar> = \<bar>real_of_int n * u - \<bar>x\<bar>\<bar>"
    using False by (simp add: abs_mult abs_sgn_eq)
  also have "real_of_int n * u - \<bar>x\<bar> = u * (real_of_int n - \<bar>x\<bar> / u)"
    using upos by (simp add: field_simps)
  also have "\<bar>u * (real_of_int n - \<bar>x\<bar> / u)\<bar> = u * \<bar>real_of_int n - \<bar>x\<bar> / u\<bar>"
    using upos by (simp add: abs_mult)
  also have "\<dots> \<le> u * (1 / 2)"
    using rne_error[of "\<bar>x\<bar> / u"] upos unfolding n_def by (intro mult_left_mono) auto
  also have "u * (1 / 2) = 2 powi ilog2 \<bar>x\<bar> / 2 ^ 53"
  proof -
    have "(2::real) powi (ilog2 \<bar>x\<bar> - 52) = 2 powi ilog2 \<bar>x\<bar> / 2 ^ 52"
      by (simp add: power_int_diff)
    then show ?thesis unfolding u_def by simp
  qed
  also have "\<dots> \<le> \<bar>x\<bar> / 2 ^ 53"
    using ilog2_bounds[OF pos] by (simp add: divide_right_mono)
  finally show ?thesis .
qed

lemma fl_error_le:
  assumes "\<bar>x\<bar> \<le> m"
  shows "\<bar>fl x - x\<bar> \<le> m * (1 / 2 ^ 53)"
proof -
  have "\<bar>x\<bar> / 2 ^ 53 \<le> m / 2 ^ 53"
    using assms by (rule divide_right_mono) simp
  with fl_error[of x] show ?thesis by simp
qed

text \<open>Rounding is odd, and the bounds of its relative error as factors.\<close>

lemma fl_zero: "fl 0 = 0"
  by (simp add: fl_def)

lemma fl_minus: "fl (- x) = - fl x"
  by (simp add: fl_def Let_def sgn_minus)


lemma fl_lower:
  assumes "0 \<le> x"
  shows "x * (1 - 1 / 2 ^ 53) \<le> fl x"
proof -
  have "\<bar>fl x - x\<bar> \<le> x / 2 ^ 53" using fl_error[of x] assms by simp
  then have "x - x / 2 ^ 53 \<le> fl x" by linarith
  moreover have "x * (1 - 1 / 2 ^ 53) = x - x / 2 ^ 53" by (simp add: algebra_simps)
  ultimately show ?thesis by (simp only:)
qed

lemma fl_upper:
  assumes "0 \<le> x"
  shows "fl x \<le> x * (1 + 1 / 2 ^ 53)"
proof -
  have "\<bar>fl x - x\<bar> \<le> x / 2 ^ 53" using fl_error[of x] assms by simp
  then have "fl x \<le> x + x / 2 ^ 53" by linarith
  moreover have "x * (1 + 1 / 2 ^ 53) = x + x / 2 ^ 53" by (simp add: algebra_simps)
  ultimately show ?thesis by (simp only:)
qed

text \<open>
  A number \<open>n * 2^k\<close> with an integer \<open>n\<close> of at most 53 bits is a double: rounding leaves
  it as it is. So are the integers up to \<open>2^53\<close>.
\<close>

lemma rne_of_int: "rne (real_of_int n) = n"
  by (simp add: rne_def)

lemma fl_representable_pos:
  assumes "0 < n" and "n \<le> 2 ^ 53"
  shows "fl (real_of_int n * 2 powi k) = real_of_int n * 2 powi k"
proof -
  define x where "x = real_of_int n * 2 powi k"
  have xpos: "0 < x" using assms(1) by (simp add: x_def)
  define e where "e = ilog2 x"
  define u :: real where "u = 2 powi (e - 52)"
  have upos: "0 < u" by (simp add: u_def)
  define j where "j = k - e + 52"
  have b: "2 powi e \<le> x" using ilog2_bounds[OF xpos] by (simp add: e_def)
  have q: "x / u = real_of_int n * 2 powi j"
    by (simp add: x_def u_def j_def power_int_diff power_int_add field_simps)
  have "2 powi e / u = 2 ^ 52"
    by (simp add: u_def power_int_diff)
  then have qlow: "2 ^ 52 \<le> x / u"
    using b upos divide_right_mono[of "2 powi e" x u] by simp
  have "\<exists>m. x / u = real_of_int m"
  proof (cases "0 \<le> j")
    case True
    then have "(2::real) powi j = real_of_int (2 ^ nat j)"
      by (simp add: power_int_def)
    then have "x / u = real_of_int (n * 2 ^ nat j)" unfolding q by simp
    then show ?thesis by blast
  next
    case False
    have jm1: "j = - 1"
    proof (rule ccontr)
      assume "j \<noteq> - 1"
      with False have "j \<le> - 2" by simp
      then have "(2::real) powi j \<le> 2 powi (- 2)"
        by (intro power_int_increasing) auto
      then have "(2::real) powi j \<le> 1 / 4" by (simp add: power_int_minus)
      moreover have "real_of_int n \<le> 2 ^ 53" using assms(2) by (simp add: of_int_le_iff[symmetric] del: of_int_le_iff)
      moreover have "0 \<le> (2::real) powi j" by simp
      ultimately have "real_of_int n * 2 powi j \<le> 2 ^ 53 * (1 / 4)"
        using assms(1) by (intro mult_mono) auto
      with qlow show False unfolding q by simp
    qed
    have half: "x / u = real_of_int n / 2"
      unfolding q jm1 by (simp add: power_int_minus)
    with qlow have "2 ^ 53 \<le> real_of_int n" by simp
    then have "(2::int) ^ 53 \<le> n" by (simp add: of_int_le_iff[symmetric] del: of_int_le_iff)
    with assms(2) have "n = 2 ^ 53" by simp
    then have "x / u = real_of_int (2 ^ 52)" unfolding half by simp
    then show ?thesis by blast
  qed
  then obtain m where m: "x / u = real_of_int m" by blast
  have "fl x = real_of_int (rne (x / u)) * u"
    using xpos by (simp add: fl_def Let_def e_def u_def)
  also have "\<dots> = x / u * u" unfolding m rne_of_int ..
  also have "\<dots> = x" using upos by simp
  finally show ?thesis unfolding x_def .
qed

lemma fl_representable:
  assumes "\<bar>n\<bar> \<le> 2 ^ 53"
  shows "fl (real_of_int n * 2 powi k) = real_of_int n * 2 powi k"
proof (cases "0 < n")
  case True
  then show ?thesis using assms by (intro fl_representable_pos) auto
next
  case False
  show ?thesis
  proof (cases "n = 0")
    case True
    then show ?thesis by (simp add: fl_zero)
  next
    case F: False
    with False assms have "0 < - n" "- n \<le> 2 ^ 53" by auto
    then have "fl (real_of_int (- n) * 2 powi k) = real_of_int (- n) * 2 powi k"
      by (rule fl_representable_pos)
    then show ?thesis using fl_minus[of "real_of_int n * 2 powi k"] by simp
  qed
qed

lemma fl_of_int: "\<bar>n\<bar> \<le> 2 ^ 53 \<Longrightarrow> fl (real_of_int n) = real_of_int n"
  using fl_representable[of n 0] by simp

lemma fl_numeral: "numeral k \<le> (2::int) ^ 53 \<Longrightarrow> fl (numeral k) = numeral k"
  using fl_of_int[of "numeral k"] by simp

lemma fl_one: "fl 1 = 1"
  using fl_of_int[of 1] by simp

lemma fl_half_int: "\<bar>n\<bar> \<le> 2 ^ 53 \<Longrightarrow> fl (real_of_int n / 2) = real_of_int n / 2"
  using fl_representable[of n "- 1"] by (simp add: power_int_minus)


lemma fl_neg_numeral: "numeral k \<le> (2::int) ^ 53 \<Longrightarrow> fl (- numeral k) = - numeral k"
  using fl_numeral[of k] by (simp add: fl_minus)

lemma fl_neg_one: "fl (- 1) = - 1"
  by (simp add: fl_minus fl_one)

lemma fl_half: "fl (1 / 2) = 1 / 2"
  using fl_half_int[of 1] by simp


section \<open>Rect clamping\<close>













section \<open>The gray value\<close>

text \<open>
  The computed luminance differs from the weighted luminance of the spec by the
  rounding of three literals, three products and two sums.
\<close>

lemma term_error:
  fixes e :: real
  defines "e \<equiv> 1 / 2 ^ 53"
  assumes "0 \<le> v" and "v \<le> 255" and "0 \<le> w" and "w \<le> 1"
  shows "\<bar>fl (v * fl w) - v * w\<bar> \<le> 511 * e" and "0 \<le> fl (v * fl w)"
proof -
  have e: "0 \<le> e" "e \<le> 1 / 1000" by (simp_all add: e_def)
  have ew: "\<bar>fl w - w\<bar> \<le> 1 * e"
    unfolding e_def using assms(4,5) by (intro fl_error_le) simp
  have "\<bar>v * fl w - v * w\<bar> = v * \<bar>fl w - w\<bar>"
    using assms(2) by (simp add: right_diff_distrib[symmetric] abs_mult)
  also have "\<dots> \<le> 255 * (1 * e)"
    using assms(2,3) ew by (intro mult_mono) auto
  finally have e1: "\<bar>v * fl w - v * w\<bar> \<le> 255 * e" by simp
  have "v * w \<le> 255 * 1"
    using assms by (intro mult_mono) auto
  moreover have "0 \<le> v * w" using assms by simp
  ultimately have "\<bar>v * fl w\<bar> \<le> 256" using e1 e by linarith
  then have e2: "\<bar>fl (v * fl w) - v * fl w\<bar> \<le> 256 * e"
    unfolding e_def by (rule fl_error_le)
  show "\<bar>fl (v * fl w) - v * w\<bar> \<le> 511 * e"
    using e1 e2 by linarith
  show "0 \<le> fl (v * fl w)"
    using assms by (intro fl_nonneg mult_nonneg_nonneg) auto
qed

lemma byte_real: "0 \<le> real (unat (c::byte)) \<and> real (unat c) \<le> 255"
proof -
  have "unat c < 256" using unsigned_less[of c, where 'a = nat] by simp
  then show ?thesis by (simp del: of_nat_unat)
qed

lemma luminance_error:
  "\<bar>luminance r g b - weighted_luminance r g b\<bar> \<le> 2814 * (1 / 2 ^ 53) \<and> 0 \<le> luminance r g b"
proof -
  define e :: real where "e = 1 / 2 ^ 53"
  have e: "0 \<le> e" "e \<le> 1 / 1000" by (simp_all add: e_def)
  define R G B where "R = real (unat r)" and "G = real (unat g)" and "B = real (unat b)"
  have R: "0 \<le> R" "R \<le> 255" and G: "0 \<le> G" "G \<le> 255" and B: "0 \<le> B" "B \<le> 255"
    using byte_real[of r] byte_real[of g] byte_real[of b] by (simp_all add: R_def G_def B_def)
  define a where "a = fl (R * fl (299 / 1000))"
  define b' where "b' = fl (G * fl (587 / 1000))"
  define c where "c = fl (B * fl (114 / 1000))"
  have a: "\<bar>a - R * (299 / 1000)\<bar> \<le> 511 * e" "0 \<le> a"
    unfolding a_def e_def using term_error[OF R, of "299 / 1000"] by simp_all
  have b: "\<bar>b' - G * (587 / 1000)\<bar> \<le> 511 * e" "0 \<le> b'"
    unfolding b'_def e_def using term_error[OF G, of "587 / 1000"] by simp_all
  have c: "\<bar>c - B * (114 / 1000)\<bar> \<le> 511 * e" "0 \<le> c"
    unfolding c_def e_def using term_error[OF B, of "114 / 1000"] by simp_all
  have "\<bar>a + b'\<bar> \<le> 512" using a b R G e by linarith
  then have s1: "\<bar>fl (a + b') - (a + b')\<bar> \<le> 512 * e"
    unfolding e_def by (rule fl_error_le)
  have s1pos: "0 \<le> fl (a + b')" using a(2) b(2) by (intro fl_nonneg) simp
  have "\<bar>fl (a + b') + c\<bar> \<le> 769" using s1 a b c R G B e by linarith
  then have s2: "\<bar>fl (fl (a + b') + c) - (fl (a + b') + c)\<bar> \<le> 769 * e"
    unfolding e_def by (rule fl_error_le)
  have lum: "luminance r g b = fl (fl (a + b') + c)"
    by (simp add: luminance_def a_def b'_def c_def R_def G_def B_def del: of_nat_unat)
  have wl: "weighted_luminance r g b = R * (299 / 1000) + G * (587 / 1000) + B * (114 / 1000)"
    by (simp add: weighted_luminance_def R_def G_def B_def del: of_nat_unat)
  have "\<bar>fl (fl (a + b') + c) - (R * (299 / 1000) + G * (587 / 1000) + B * (114 / 1000))\<bar>
      \<le> 2814 * e"
    using a(1) b(1) c(1) s1 s2 by linarith
  moreover have "0 \<le> fl (fl (a + b') + c)"
    using s1pos c(2) by (intro fl_nonneg) simp
  ultimately show ?thesis unfolding lum wl e_def by simp
qed

lemma weighted_luminance_int:
  "weighted_luminance r g b =
     real_of_int (299 * int (unat r) + 587 * int (unat g) + 114 * int (unat b)) / 1000"
  by (simp add: weighted_luminance_def field_simps del: of_nat_unat)

lemma unat_byte: "int (unat (c::byte)) \<le> 255"
  using uint_lt2p[of c] by simp

text \<open>The position of the computed luminance between the integers.\<close>

lemma floor_luminance:
  fixes r g b :: byte
  defines "m \<equiv> 299 * int (unat r) + 587 * int (unat g) + 114 * int (unat b)"
  shows "(m mod 1000 \<noteq> 0 \<longrightarrow> \<lfloor>luminance r g b\<rfloor> = m div 1000) \<and>
         m div 1000 - 1 \<le> \<lfloor>luminance r g b\<rfloor> \<and> \<lfloor>luminance r g b\<rfloor> \<le> m div 1000 \<and>
         0 \<le> \<lfloor>luminance r g b\<rfloor> \<and> \<lfloor>luminance r g b\<rfloor> \<le> 255"
proof -
  define v where "v = luminance r g b"
  define q k where "q = m div 1000" and "k = m mod 1000"
  have m: "m = 1000 * q + k" and k: "0 \<le> k" "k \<le> 999"
    by (simp_all add: q_def k_def) 
  have mrange: "0 \<le> m" "m \<le> 255000"
    using unat_byte[of r] unat_byte[of g] unat_byte[of b] by (simp_all add: m_def)
  have q: "0 \<le> q" "q \<le> 255" using mrange by (simp_all add: q_def pos_imp_zdiv_nonneg_iff) 
  have q255: "q = 255 \<Longrightarrow> k = 0" using m mrange(2) k by linarith
  have tiny: "(2814::real) * (1 / 2 ^ 53) \<le> 1 / 2000" by simp
  have "weighted_luminance r g b = real_of_int m / 1000"
    by (simp add: weighted_luminance_int m_def)
  also have "\<dots> = real_of_int q + real_of_int k / 1000"
    unfolding m by simp
  finally have err: "\<bar>v - (real_of_int q + real_of_int k / 1000)\<bar> \<le> 1 / 2000" and pos: "0 \<le> v"
    using luminance_error[of r g b] tiny unfolding v_def by simp_all
  have kr: "0 \<le> real_of_int k" "real_of_int k \<le> 999" using k by simp_all
  have lower: "real_of_int q - 1 \<le> v" using err kr by linarith
  have upper: "v < real_of_int q + 1" using err kr by linarith
  have f1: "q - 1 \<le> \<lfloor>v\<rfloor>" using lower by (simp add: le_floor_iff)
  have f2: "\<lfloor>v\<rfloor> \<le> q" using upper by (simp add: floor_le_iff)
  have f3: "\<lfloor>v\<rfloor> = q" if "k \<noteq> 0"
  proof -
    from that k have "1 \<le> k" by simp
    then have "1 \<le> real_of_int k" by simp
    then have "real_of_int q \<le> v" using err by linarith
    then have "q \<le> \<lfloor>v\<rfloor>" by (simp add: le_floor_iff)
    with f2 show ?thesis by simp
  qed
  have f4: "0 \<le> \<lfloor>v\<rfloor>" using pos by simp
  have f5: "\<lfloor>v\<rfloor> \<le> 255" using f2 q by linarith
  show ?thesis
    using f1 f2 f3 f4 f5 unfolding v_def q_def k_def by blast
qed

lemma to_int32_small: "0 \<le> v \<Longrightarrow> \<lfloor>v\<rfloor> < 2 ^ 31 \<Longrightarrow> to_int32 v = \<lfloor>v\<rfloor>"
  by (simp add: to_int32_def Let_def)

lemma to_int32_luminance: "to_int32 (luminance r g b) = \<lfloor>luminance r g b\<rfloor>"
  using floor_luminance[of r g b] luminance_error[of r g b]
  by (intro to_int32_small) simp_all

text \<open>The gray value of a pixel whose weighted luminance is not an integer.\<close>

lemma gray_of_pixel:
  "(299 * int (unat r) + 587 * int (unat g) + 114 * int (unat b)) mod 1000 \<noteq> 0 \<Longrightarrow>
   to_int32 (luminance r g b) = (299 * int (unat r) + 587 * int (unat g) + 114 * int (unat b)) div 1000"
  using floor_luminance[of r g b] by (simp add: to_int32_luminance)

lemma floor_weighted_luminance:
  "\<lfloor>weighted_luminance r g b\<rfloor> = (299 * int (unat r) + 587 * int (unat g) + 114 * int (unat b)) div 1000"
proof -
  have "weighted_luminance r g b =
      real_of_int (299 * int (unat r) + 587 * int (unat g) + 114 * int (unat b)) / real_of_int 1000"
    by (simp add: weighted_luminance_int)
  then show ?thesis by (simp only: floor_divide_of_int_eq)
qed

lemma js_get_mid: "js_get (pre @ c # post) (real (length pre)) = Some c"
  by (simp add: js_get_def)

lemma grayAt_defined:
  "grayAt (pre @ [r, g, b] @ post) (real (length pre)) = \<lfloor>luminance r g b\<rfloor>"
proof -
  have 1: "js_get (pre @ r # g # b # post) (real (length pre)) = Some r"
    using js_get_mid[of pre r "g # b # post"] by simp
  have 2: "js_get (pre @ r # g # b # post) (real (length pre) + 1) = Some g"
    using js_get_mid[of "pre @ [r]" g "b # post"] by (simp add: add.commute)
  have 3: "js_get (pre @ r # g # b # post) (real (length pre) + 2) = Some b"
    using js_get_mid[of "pre @ [r, g]" b "post"] by (simp add: add.commute)
  show ?thesis by (simp add: grayAt_def 1 2 3 to_int32_luminance)
qed

lemma grayAt_range: "0 \<le> grayAt d idx \<and> grayAt d idx \<le> 255"
  using floor_luminance
  by (auto simp add: grayAt_def to_int32_luminance split: option.splits)

lemma round_floor: "round (v::real) - 1 \<le> \<lfloor>v\<rfloor> \<and> \<lfloor>v\<rfloor> \<le> round v"
  unfolding round_def by linarith

lemma round_of_int: "round (real_of_int n) = n"
  by (simp add: round_def)

text \<open>
  C3, as stated: the gray value of the pixel \<open>(R, G, B) = (2, 0, 0)\<close> is 0, and the
  nearest integer to its weighted luminance 0.598 is 1.
\<close>

theorem grayAt_round_counterexample:
  "grayAt [2, 0, 0, 255] 0 \<noteq> round (weighted_luminance 2 0 0)"
  by (simp add: grayAt_def js_get_def gray_of_pixel weighted_luminance_def round_def)

text \<open>
  C3, amended: the gray value of a pixel with the channels \<open>R\<close>, \<open>G\<close>, \<open>B\<close>, for every byte
  triple, is the luminance computed in doubles and truncated to an integer (\<^verbatim>\<open>| 0\<close>), not
  rounded to the nearest. It is the floor of the weighted luminance
  \<open>0.299 R + 0.587 G + 0.114 B\<close>, that is \<open>(299 R + 587 G + 114 B) div 1000\<close>, when the weighted
  luminance is not an integer, and that integer or the one below it when it is: always
  the nearest integer to the weighted luminance or the one below.
\<close>

theorem grayAt_truncates:
  "grayAt (pre @ [r, g, b] @ post) (real (length pre)) = \<lfloor>luminance r g b\<rfloor> \<and>
   ((299 * int (unat r) + 587 * int (unat g) + 114 * int (unat b)) mod 1000 \<noteq> 0 \<longrightarrow>
      grayAt (pre @ [r, g, b] @ post) (real (length pre)) = \<lfloor>weighted_luminance r g b\<rfloor>) \<and>
   \<lfloor>weighted_luminance r g b\<rfloor> = (299 * int (unat r) + 587 * int (unat g) + 114 * int (unat b)) div 1000 \<and>
   \<lfloor>weighted_luminance r g b\<rfloor> - 1 \<le> grayAt (pre @ [r, g, b] @ post) (real (length pre)) \<and>
   grayAt (pre @ [r, g, b] @ post) (real (length pre)) \<le> \<lfloor>weighted_luminance r g b\<rfloor> \<and>
   round (weighted_luminance r g b) - 1 \<le> grayAt (pre @ [r, g, b] @ post) (real (length pre)) \<and>
   grayAt (pre @ [r, g, b] @ post) (real (length pre)) \<le> round (weighted_luminance r g b)"
proof -
  define m where "m = 299 * int (unat r) + 587 * int (unat g) + 114 * int (unat b)"
  define y where "y = grayAt (pre @ [r, g, b] @ post) (real (length pre))"
  have y: "y = \<lfloor>luminance r g b\<rfloor>" unfolding y_def by (rule grayAt_defined)
  have fw: "\<lfloor>weighted_luminance r g b\<rfloor> = m div 1000"
    unfolding m_def by (rule floor_weighted_luminance)
  have fm: "(m mod 1000 \<noteq> 0 \<longrightarrow> y = m div 1000) \<and> m div 1000 - 1 \<le> y \<and> y \<le> m div 1000"
    using floor_luminance[of r g b] unfolding y m_def by blast
  have rnd: "round (weighted_luminance r g b) - 1 \<le> y \<and> y \<le> round (weighted_luminance r g b)"
  proof (cases "m mod 1000 = 0")
    case True
    then have "1000 dvd m" by (simp add: mod_eq_0_iff_dvd)
    then obtain q where q: "m = 1000 * q" by (rule dvdE)
    have "weighted_luminance r g b = real_of_int m / 1000"
      unfolding weighted_luminance_int m_def[symmetric] ..
    also have "\<dots> = real_of_int q" unfolding q by simp
    finally have "round (weighted_luminance r g b) = q" by (simp only: round_of_int)
    moreover have "m div 1000 = q" unfolding q by simp
    ultimately have "round (weighted_luminance r g b) = m div 1000" by simp
    with fm show ?thesis by linarith
  next
    case False
    with fm have "y = \<lfloor>weighted_luminance r g b\<rfloor>" by (simp only: fw) blast
    then show ?thesis using round_floor[of "weighted_luminance r g b"] by blast
  qed
  have c2: "m mod 1000 \<noteq> 0 \<longrightarrow> y = \<lfloor>weighted_luminance r g b\<rfloor>"
    using fm unfolding fw by blast
  have c4: "\<lfloor>weighted_luminance r g b\<rfloor> - 1 \<le> y" and c5: "y \<le> \<lfloor>weighted_luminance r g b\<rfloor>"
    using fm unfolding fw by blast+
  show ?thesis
    unfolding y_def[symmetric] m_def[symmetric]
    using y c2 fw c4 c5 rnd by blast
qed

text \<open>
  Both cases occur: a pixel of the weighted luminance 158.677 has the gray value 158, and
  the pixel \<open>(0, 72, 24)\<close> of the weighted luminance 45 has the gray value 44, the doubles
  \<open>72 * 0.587\<close> and \<open>24 * 0.114\<close> adding up to less than 45.
\<close>

lemma gray_below_integer_luminance: "\<lfloor>luminance 0 72 24\<rfloor> = 44"
  by (simp add: luminance_def fl_def rne_def ilog2.simps Let_def)

theorem grayAt_truncates_witness:
  "grayAt [9, 9, 9, 9, 255, 128, 64, 255] 4 = 158 \<and> round (weighted_luminance 255 128 64) = 159 \<and>
   grayAt [0, 72, 24, 255] 0 = 44 \<and> \<lfloor>weighted_luminance 0 72 24\<rfloor> = 45"
  using grayAt_truncates[of "[9, 9, 9, 9]" 255 128 64 "[255]"] grayAt_truncates[of "[]" 0 72 24 "[255]"]
    gray_below_integer_luminance
  by (simp add: weighted_luminance_def round_def)

section \<open>Calibration\<close>

text \<open>The doubles of the literals, and the doubles met on the spec's instance.\<close>

lemma double_nano: "fl (1 / 1000000000) = 4835703278458517 / 2 ^ 82"
  by (simp add: fl_def rne_def ilog2.simps Let_def)

lemma double_micro: "fl (1 / 1000000) = 4722366482869645 / 2 ^ 72"
  by (simp add: fl_def rne_def ilog2.simps Let_def)

lemma double_tenth: "fl (1 / 10) = 3602879701896397 / 2 ^ 55"
  by (simp add: fl_def rne_def ilog2.simps Let_def)

lemma double_hundredth: "fl (1 / 100) = 5764607523034235 / 2 ^ 59"
  by (simp add: fl_def rne_def ilog2.simps Let_def)

lemma scaled_tenth: "fl (90071992547409925 / 18014398509481984) = 5"
  by (simp add: fl_def rne_def ilog2.simps Let_def)

lemma scaled_hundredth: "fl (144115188075855875 / 288230376151711744) = 1 / 2"
  by (simp add: fl_def rne_def ilog2.simps Let_def)

text \<open>
  C1: on the spec's instance the build succeeds, and the mapper it returns sends the
  pixel \<open>(50, 50)\<close> to exactly \<open>X = 5\<close>, \<open>Y = 0.5\<close>.
\<close>

theorem calibration_round_trip:
  "map_sum id (\<lambda>m. m \<lparr>pt_x = 50, pt_y = 50\<rparr>)
     (buildPixelToDataMapper \<lparr>pt_x = 0, pt_y = 100\<rparr> \<lparr>pt_x = 100, pt_y = 100\<rparr>
        \<lparr>pt_x = 0, pt_y = 100\<rparr> \<lparr>pt_x = 0, pt_y = 0\<rparr> 0 10 0 1)
   = Inr \<lparr>data_X = 5, data_Y = 1 / 2\<rparr>"
  by (simp add: buildPixelToDataMapper_def normalize_pt_def norm_pt_def sub_def dot_def Let_def
      fl_zero fl_one fl_neg_one fl_half fl_numeral fl_neg_numeral double_nano double_micro
      double_tenth double_hundredth scaled_tenth scaled_hundredth)





















section \<open>Clustering\<close>




















section \<open>The Otsu threshold\<close>

lemma fold_sum_scale:
  "\<forall>t \<in> set ts. t < length hist \<Longrightarrow>
   fold (\<lambda>t s. s + int t * int (map ((*) k) hist ! t)) ts (int k * s0)
     = int k * fold (\<lambda>t s. s + int t * int (hist ! t)) ts s0"
proof (induction ts arbitrary: s0)
  case Nil
  show ?case by simp
next
  case (Cons a ts)
  have "int k * s0 + int a * int (map ((*) k) hist ! a) = int k * (s0 + int a * int (hist ! a))"
    using Cons.prems by (simp add: algebra_simps)
  then show ?case using Cons.IH[of "s0 + int a * int (hist ! a)"] Cons.prems by simp
qed

lemma scaled_compare:
  "0 < k \<Longrightarrow> 0 \<le> vb \<Longrightarrow> vm' = k\<^sup>2 * vm \<or> (vm < 0 \<and> vm' < 0) \<Longrightarrow>
   (vm' < k\<^sup>2 * vb) = (vm < vb)" for k :: real
proof (erule disjE)
  assume "0 < k" "vm' = k\<^sup>2 * vm"
  then show ?thesis by simp
next
  assume a: "0 < k" "0 \<le> vb" "vm < 0 \<and> vm' < 0"
  then have "0 \<le> k\<^sup>2 * vb" by simp
  with a show ?thesis by linarith
qed

text \<open>
  The between-class variance, as the scan computes it, is not negative when the
  rounding keeps the sign.
\<close>

lemma rounded_variance_nonneg:
  fixes rnd :: "real \<Rightarrow> real"
  assumes pos: "\<And>x. 0 \<le> x \<Longrightarrow> 0 \<le> rnd x" and neg: "\<And>x. x \<le> 0 \<Longrightarrow> rnd x \<le> 0"
    and "0 \<le> a"
  shows "0 \<le> rnd (rnd (rnd a * d) * d)"
proof (cases "0 \<le> d")
  case True
  have "0 \<le> rnd a * d" using pos[OF assms(3)] True by (rule mult_nonneg_nonneg)
  then have "0 \<le> rnd (rnd a * d)" by (rule pos)
  then have "0 \<le> rnd (rnd a * d) * d" using True by (rule mult_nonneg_nonneg)
  then show ?thesis by (rule pos)
next
  case False
  then have d: "d \<le> 0" by simp
  have "rnd a * d \<le> 0" using pos[OF assms(3)] d by (rule mult_nonneg_nonpos)
  then have "rnd (rnd a * d) \<le> 0" by (rule neg)
  then have "0 \<le> rnd (rnd a * d) * d" using d by (rule mult_nonpos_nonpos)
  then show ?thesis by (rule pos)
qed

text \<open>
  The scan on the histogram multiplied by \<open>k\<close> runs in step with the scan on the histogram,
  when the rounding commutes with the multiplication by \<open>k\<^sup>2\<close> and keeps the sign: the
  weights and the sums are multiplied by \<open>k\<close>, the means are the same, and the variances
  are multiplied by \<open>k\<^sup>2\<close>.
\<close>

lemma otsu_scan_scale:
  assumes "0 < k"
    and scale: "\<And>x. rnd ((real k)\<^sup>2 * x) = (real k)\<^sup>2 * rnd x"
    and pos: "\<And>x. 0 \<le> x \<Longrightarrow> 0 \<le> rnd x"
    and neg: "\<And>x. x \<le> 0 \<Longrightarrow> rnd x \<le> 0"
    and "\<forall>t \<in> set ts. t < length hist"
    and "0 \<le> wB"
    and "wB + int (sum_list (map ((!) hist) ts)) \<le> totalN"
    and "varMax' = (real k)\<^sup>2 * varMax \<or> (varMax < 0 \<and> varMax' < 0)"
  shows "otsu_scan rnd (map ((*) k) hist) (int k * totalN) (int k * sumAll) ts
           (int k * sumB, int k * wB, varMax', th)
         = otsu_scan rnd hist totalN sumAll ts (sumB, wB, varMax, th)"
  using assms(5-)
proof (induction ts arbitrary: sumB wB varMax varMax' th)
  case Nil
  show ?case by simp
next
  case (Cons t ts)
  let ?h = "int (hist ! t)"
  let ?wB = "wB + ?h"
  let ?wF = "totalN - ?wB"
  let ?sumB = "sumB + int t * ?h"
  let ?mB = "rnd (real_of_int ?sumB / real_of_int ?wB)"
  let ?mF = "rnd (real_of_int (sumAll - ?sumB) / real_of_int ?wF)"
  let ?d = "rnd (?mB - ?mF)"
  let ?vb = "rnd (rnd (rnd (real_of_int ?wB * real_of_int ?wF) * ?d) * ?d)"
  have t: "t < length hist" and ts: "\<forall>t \<in> set ts. t < length hist"
    using Cons.prems(1) by auto
  have hk: "int (map ((*) k) hist ! t) = int k * ?h" using t by simp
  have wBk: "int k * wB + int (map ((*) k) hist ! t) = int k * ?wB"
    by (simp add: hk algebra_simps)
  have wFk: "int k * totalN - int k * ?wB = int k * ?wF"
    by (simp add: algebra_simps)
  have sumBk: "int k * sumB + int t * int (map ((*) k) hist ! t) = int k * ?sumB"
    by (simp add: hk algebra_simps)
  have wB0: "0 \<le> ?wB" using Cons.prems(2) by simp
  have bound: "?wB + int (sum_list (map ((!) hist) ts)) \<le> totalN"
    using Cons.prems(3) by simp
  then have wF0: "0 \<le> ?wF" by linarith
  have kpos: "0 < real k" "real k \<noteq> 0" "int k \<noteq> 0" using assms(1) by auto
  have mBk: "rnd (real_of_int (int k * ?sumB) / real_of_int (int k * ?wB)) = ?mB"
    using kpos by simp
  have mFk: "rnd (real_of_int (int k * sumAll - int k * ?sumB) / real_of_int (int k * ?wF)) = ?mF"
  proof -
    have "int k * sumAll - int k * ?sumB = int k * (sumAll - ?sumB)" by (simp add: algebra_simps)
    then show ?thesis using kpos by simp
  qed
  have pk: "rnd (real_of_int (int k * ?wB) * real_of_int (int k * ?wF))
      = (real k)\<^sup>2 * rnd (real_of_int ?wB * real_of_int ?wF)"
  proof -
    have "real_of_int (int k * ?wB) * real_of_int (int k * ?wF)
        = (real k)\<^sup>2 * (real_of_int ?wB * real_of_int ?wF)"
      by (simp only: of_int_mult of_int_of_nat_eq power2_eq_square mult_ac)
    then show ?thesis by (simp only: scale)
  qed
  let ?vb' = "rnd (rnd (rnd (real_of_int (int k * ?wB) * real_of_int (int k * ?wF)) * ?d) * ?d)"
  have vbk: "?vb' = (real k)\<^sup>2 * ?vb"
    by (simp only: pk mult.assoc scale)
  have "0 \<le> real_of_int ?wB * real_of_int ?wF" using wB0 wF0 by simp
  note vb0 = rounded_variance_nonneg[of rnd "real_of_int ?wB * real_of_int ?wF" ?d, OF pos neg this]
  have cmp: "(varMax' < ?vb') = (varMax < ?vb)"
    unfolding vbk by (rule scaled_compare[OF kpos(1) vb0 Cons.prems(4)])
  have lhs: "otsu_scan rnd (map ((*) k) hist) (int k * totalN) (int k * sumAll) (t # ts)
           (int k * sumB, int k * wB, varMax', th) =
     (if ?wB = 0 then otsu_scan rnd (map ((*) k) hist) (int k * totalN) (int k * sumAll) ts (int k * sumB, int k * ?wB, varMax', th)
      else if ?wF = 0 then th
      else if varMax < ?vb
           then otsu_scan rnd (map ((*) k) hist) (int k * totalN) (int k * sumAll) ts (int k * ?sumB, int k * ?wB, ?vb', int t)
           else otsu_scan rnd (map ((*) k) hist) (int k * totalN) (int k * sumAll) ts (int k * ?sumB, int k * ?wB, varMax', th))"
    using kpos
    by (simp only: otsu_scan.simps Let_def wBk wFk sumBk mBk mFk cmp) simp
  have rhs: "otsu_scan rnd hist totalN sumAll (t # ts) (sumB, wB, varMax, th) =
     (if ?wB = 0 then otsu_scan rnd hist totalN sumAll ts (sumB, ?wB, varMax, th)
      else if ?wF = 0 then th
      else if varMax < ?vb
           then otsu_scan rnd hist totalN sumAll ts (?sumB, ?wB, ?vb, int t)
           else otsu_scan rnd hist totalN sumAll ts (?sumB, ?wB, varMax, th))"
    by (simp only: otsu_scan.simps Let_def)
  have ih1: "otsu_scan rnd (map ((*) k) hist) (int k * totalN) (int k * sumAll) ts (int k * sumB, int k * ?wB, varMax', th)
      = otsu_scan rnd hist totalN sumAll ts (sumB, ?wB, varMax, th)"
    by (rule Cons.IH[OF ts wB0 bound Cons.prems(4)])
  have ih2: "otsu_scan rnd (map ((*) k) hist) (int k * totalN) (int k * sumAll) ts (int k * ?sumB, int k * ?wB, ?vb', int t)
      = otsu_scan rnd hist totalN sumAll ts (?sumB, ?wB, ?vb, int t)"
    by (rule Cons.IH[OF ts wB0 bound disjI1[OF vbk]])
  have ih3: "otsu_scan rnd (map ((*) k) hist) (int k * totalN) (int k * sumAll) ts (int k * ?sumB, int k * ?wB, varMax', th)
      = otsu_scan rnd hist totalN sumAll ts (?sumB, ?wB, varMax, th)"
    by (rule Cons.IH[OF ts wB0 bound Cons.prems(4)])
  show ?case unfolding lhs rhs ih1 ih2 ih3 by simp
qed

lemma otsu_select_scale:
  assumes "0 < k" and "length hist = 256"
    and scale: "\<And>x. rnd ((real k)\<^sup>2 * x) = (real k)\<^sup>2 * rnd x"
    and pos: "\<And>x. 0 \<le> x \<Longrightarrow> 0 \<le> rnd x"
    and neg: "\<And>x. x \<le> 0 \<Longrightarrow> rnd x \<le> 0"
  shows "otsu_select rnd (map ((*) k) hist) (int (sum_list (map ((*) k) hist)))
       = otsu_select rnd hist (int (sum_list hist))"
proof -
  have tot: "int (sum_list (map ((*) k) hist)) = int k * int (sum_list hist)"
    by (simp add: sum_list_const_mult)
  have idx: "\<forall>t \<in> set [0..<256]. t < length hist" using assms(2) by simp
  have sm: "fold (\<lambda>t s. s + int t * int (map ((*) k) hist ! t)) [0..<256] 0
     = int k * fold (\<lambda>t s. s + int t * int (hist ! t)) [0..<256] 0"
    using fold_sum_scale[OF idx, of k 0] by simp
  have "map ((!) hist) [0..<256] = hist"
    using map_nth[of hist] assms(2) by simp
  then have bound: "0 + int (sum_list (map ((!) hist) [0..<256])) \<le> int (sum_list hist)"
    by simp
  have scan: "otsu_scan rnd (map ((*) k) hist) (int k * int (sum_list hist))
        (int k * fold (\<lambda>t s. s + int t * int (hist ! t)) [0..<256] 0) [0..<256]
        (int k * 0, int k * 0, - 1, 128)
      = otsu_scan rnd hist (int (sum_list hist)) (fold (\<lambda>t s. s + int t * int (hist ! t)) [0..<256] 0)
        [0..<256] (0, 0, - 1, 128)"
  proof -
    have w: "(0::int) \<le> 0" by simp
    have v: "(- 1::real) = (real k)\<^sup>2 * (- 1) \<or> ((- 1::real) < 0 \<and> (- 1::real) < 0)" by simp
    show ?thesis
      using otsu_scan_scale[of k rnd "[0..<256]" hist 0 "int (sum_list hist)" "- 1" "- 1" _ 0 128,
          OF assms(1) scale pos neg idx w bound v]
      by simp
  qed
  have le: "(int k * int (sum_list hist) \<le> 0) = (int (sum_list hist) \<le> 0)"
    using assms(1) by (simp add: mult_le_0_iff)
  have scan': "otsu_scan rnd (map ((*) k) hist) (int k * int (sum_list hist))
        (int k * fold (\<lambda>t s. s + int t * int (hist ! t)) [0..<256] 0) [0..<256]
        (0, 0, - 1, 128)
      = otsu_scan rnd hist (int (sum_list hist)) (fold (\<lambda>t s. s + int t * int (hist ! t)) [0..<256] 0)
        [0..<256] (0, 0, - 1, 128)"
    using scan by simp
  show ?thesis
    by (simp only: otsu_select_def tot sm Let_def le scan')
qed

text \<open>In exact arithmetic, for every factor; in doubles, for the powers of two.\<close>

lemma otsu_select_scale_exact:
  "0 < k \<Longrightarrow> length hist = 256 \<Longrightarrow>
   otsu_select (\<lambda>v. v) (map ((*) k) hist) (int (sum_list (map ((*) k) hist)))
     = otsu_select (\<lambda>v. v) hist (int (sum_list hist))"
  by (rule otsu_select_scale) simp_all

lemma otsu_select_scale_pow2:
  assumes "length hist = 256"
  shows "otsu_select fl (map ((*) (2 ^ j)) hist) (int (sum_list (map ((*) (2 ^ j)) hist)))
       = otsu_select fl hist (int (sum_list hist))"
proof (rule otsu_select_scale[of "2 ^ j" hist fl, OF _ assms])
  show "0 < (2::nat) ^ j" by simp
  show "fl ((real (2 ^ j))\<^sup>2 * x) = (real (2 ^ j))\<^sup>2 * fl x" for x
  proof -
    have "(real (2 ^ j))\<^sup>2 = 2 ^ (2 * j)"
      by (simp add: power_mult power2_eq_square power_mult_distrib mult_2 power_add)
    then show ?thesis using fl_pow2[of "2 * j" x] by (simp only:)
  qed
  show "0 \<le> fl x" if "0 \<le> x" for x using that by (rule fl_nonneg)
  show "fl x \<le> 0" if "x \<le> 0" for x using that by (rule fl_nonpos)
qed


lemma hist_add_invariant:
  assumes "length hist = 256" and "0 \<le> g" and "g \<le> 255"
  shows "length (hist_add hist g) = 256 \<and> sum_list (hist_add hist g) = Suc (sum_list hist)"
proof -
  have "nat g < length hist" using assms by simp
  then show ?thesis
    using assms(1) by (simp add: hist_add_def sum_list_update)
qed

lemma otsu_histogram_invariant:
  "length (fst (otsu_histogram img rect)) = 256 \<and>
   snd (otsu_histogram img rect) = int (sum_list (fst (otsu_histogram img rect)))"
proof -
  define P where "P = (\<lambda>s :: nat list \<times> int. length (fst s) = 256 \<and> snd s = int (sum_list (fst s)))"
  define step where "step = (\<lambda>y x (s :: nat list \<times> int). case s of (hist, totalN) \<Rightarrow>
                let idx = pixel_index (width img) (real_of_int x) (real_of_int y);
                    g = grayAt (data img) idx
                in (hist_add hist g, totalN + 1))"
  have step: "P (step y x s)" if "P s" for y x s
    using that grayAt_range[of "data img" "pixel_index (width img) (real_of_int x) (real_of_int y)"]
      hist_add_invariant[of "fst s" "grayAt (data img) (pixel_index (width img) (real_of_int x) (real_of_int y))"]
    by (cases s) (simp add: Let_def P_def step_def)
  have inner: "P (fold (step y) xs s)" if "P s" for y xs s
    using that by (induction xs arbitrary: s) (simp_all add: step)
  have outer: "P (fold (\<lambda>y. fold (step y) (xs y)) ys s)" if "P s" for xs ys s
    using that by (induction ys arbitrary: s) (simp_all add: inner)
  have "P (replicate 256 0, 0)" by (simp add: P_def)
  moreover have "otsu_histogram img rect =
      fold (\<lambda>y. fold (step y) [to_int32 (rect_x rect)..to_int32 (fl (rect_x rect + rect_w rect)) - 1])
        [to_int32 (rect_y rect)..to_int32 (fl (rect_y rect + rect_h rect)) - 1] (replicate 256 0, 0)"
    by (simp add: otsu_histogram_def step_def Let_def)
  ultimately have "P (otsu_histogram img rect)"
    using outer by simp
  then show ?thesis by (simp add: P_def)
qed
lemma otsuThresholdFromRect_select:
  "otsuThresholdFromRect img rect =
     otsu_select fl (fst (otsu_histogram img rect)) (int (sum_list (fst (otsu_histogram img rect))))"
  using otsu_histogram_invariant[of img rect]
  by (simp add: otsuThresholdFromRect_def split_beta)



text \<open>
  A histogram with the levels 1, 2 and 3 only: the scan leaves the loop at the level 3.
\<close>

lemma fold_sum_empty_bins:
  "\<forall>t \<in> set ts. hist ! t = 0 \<Longrightarrow> fold (\<lambda>t s. s + int t * int (hist ! t)) ts s0 = s0"
  by (induction ts arbitrary: s0) simp_all

lemma upt_four: "[0..<256] = 0 # 1 # 2 # 3 # [4..<256]"
proof -
  have "[0..<4 + 252] = [0..<4] @ [4..<4 + 252]"
    by (rule upt_add_eq_append) simp
  moreover have "[0..<4] = [0, 1, 2, 3]" by (simp add: upt_rec)
  moreover have "(4::nat) + 252 = 256" by simp
  ultimately show ?thesis by (simp only: append.simps)
qed

lemma three_levels_sum:
  "fold (\<lambda>t s. s + int t * int ((replicate 256 0)[1 := a, 2 := b, 3 := c] ! t)) [0..<256] 0
     = int a + 2 * int b + 3 * int c"
proof -
  have "\<forall>t \<in> set [4..<256]. (replicate 256 0)[1 := a, 2 := b, 3 := c] ! t = 0"
    by auto
  then show ?thesis
    unfolding upt_four by (simp add: fold_sum_empty_bins del: upt_rec_numeral)
qed

lemma three_levels_select:
  "otsu_select fl ((replicate 256 0)[1 := 4, 2 := 1, 3 := 4]) 9 = 1"
  unfolding otsu_select_def Let_def three_levels_sum
  unfolding upt_four
  by (simp add: fl_def rne_def ilog2.simps Let_def del: upt_rec_numeral)

lemma three_levels_tripled_select:
  "otsu_select fl ((replicate 256 0)[1 := 12, 2 := 3, 3 := 12]) 27 = 2"
  unfolding otsu_select_def Let_def three_levels_sum
  unfolding upt_four
  by (simp add: fl_def rne_def ilog2.simps Let_def del: upt_rec_numeral)

lemma three_levels_total:
  "sum_list ((replicate 256 0)[1 := a, 2 := b, 3 := c]) = a + b + (c::nat)"
  by (simp add: sum_list_update)

lemma three_levels_scale:
  "map ((*) k) ((replicate 256 0)[1 := a, 2 := b, 3 := c])
     = (replicate 256 0)[1 := k * a, 2 := k * b, 3 := k * (c::nat)]"
  by (simp add: map_update)

text \<open>
  C8, as stated, for the scan in doubles: a histogram of four pixels of the gray level 1,
  one of the level 2 and four of the level 3 has the same between-class variance at the
  levels 1 and 2. The scan computes the same double at both levels and keeps the
  level 1; with every bin multiplied by 3 the double computed at the level 2 is the
  larger one, and the scan returns 2.
\<close>

theorem otsu_replication_counterexample:
  "otsu_select fl (map ((*) 3) ((replicate 256 0)[1 := 4, 2 := 1, 3 := 4]))
      (int (sum_list (map ((*) 3) ((replicate 256 0)[1 := 4, 2 := 1, 3 := 4])))) = 2 \<and>
   otsu_select fl ((replicate 256 0)[1 := 4, 2 := 1, 3 := 4])
      (int (sum_list ((replicate 256 0)[1 := 4, 2 := 1, 3 := 4]))) = 1"
  using three_levels_select three_levels_tripled_select
  by (simp only: three_levels_scale three_levels_total) simp

text \<open>
  C8, amended: for every histogram of 256 bins, the threshold selected for the histogram
  with every bin multiplied by \<open>k > 0\<close> (and the pixel count multiplied with it) is the
  one selected for the histogram itself when the scan is computed in exact arithmetic;
  in doubles, as the code computes it, this holds when \<open>k\<close> is a power of two; so two
  rects of two images, the histogram of one being \<open>2 ^ j\<close> times that of the other, get
  the same threshold.
\<close>

theorem otsu_replication_invariant:
  "length hist = 256 \<Longrightarrow>
   (0 < k \<longrightarrow>
      otsu_select (\<lambda>v. v) (map ((*) k) hist) (int (sum_list (map ((*) k) hist)))
        = otsu_select (\<lambda>v. v) hist (int (sum_list hist))) \<and>
   otsu_select fl (map ((*) (2 ^ j)) hist) (int (sum_list (map ((*) (2 ^ j)) hist)))
     = otsu_select fl hist (int (sum_list hist)) \<and>
   (fst (otsu_histogram img' rect') = map ((*) (2 ^ j)) (fst (otsu_histogram img rect)) \<longrightarrow>
      otsuThresholdFromRect img' rect' = otsuThresholdFromRect img rect)"
  using otsu_select_scale_exact[of k hist] otsu_select_scale_pow2[of hist j]
    otsu_select_scale_pow2[of "fst (otsu_histogram img rect)" j] otsu_histogram_invariant[of img rect]
  by (simp add: otsuThresholdFromRect_select)

text \<open>
  The witness: the histogram of the levels 1, 2 and 3 above, three times in exact
  arithmetic and twice in doubles; and a row of three pixels of the gray levels 1, 2
  and 3 with the image of two rows that has every pixel of it twice.
\<close>

lemma three_pixels_gray:
  "grayAt [1,1,2,255, 2,2,3,255, 3,3,4,255] 0 = 1"
  "grayAt [1,1,2,255, 2,2,3,255, 3,3,4,255] 4 = 2"
  "grayAt [1,1,2,255, 2,2,3,255, 3,3,4,255] 8 = 3"
  by (simp_all add: grayAt_def js_get_def gray_of_pixel)

lemma three_pixels_histogram:
  "otsu_histogram
     \<lparr>data = [1,1,2,255, 2,2,3,255, 3,3,4,255], width = 3, height = 1\<rparr>
     \<lparr>rect_x = 0, rect_y = 0, rect_w = 3, rect_h = 1\<rparr>
   = ((replicate 256 0)[1 := 1, 2 := 1, 3 := 1], 3)"
  apply (simp add: otsu_histogram_def to_int32_def Let_def pixel_index_def fl_zero fl_one fl_numeral
      upto.simps[of 0] upto.simps[of 1] upto.simps[of 2] upto.simps[of 3])
  apply (simp add: three_pixels_gray hist_add_def)
  done

lemma two_rows_gray:
  "grayAt [1,1,2,255, 1,1,2,255, 2,2,3,255, 2,2,3,255, 3,3,4,255, 3,3,4,255] 0 = 1"
  "grayAt [1,1,2,255, 1,1,2,255, 2,2,3,255, 2,2,3,255, 3,3,4,255, 3,3,4,255] 4 = 1"
  "grayAt [1,1,2,255, 1,1,2,255, 2,2,3,255, 2,2,3,255, 3,3,4,255, 3,3,4,255] 8 = 2"
  "grayAt [1,1,2,255, 1,1,2,255, 2,2,3,255, 2,2,3,255, 3,3,4,255, 3,3,4,255] 12 = 2"
  "grayAt [1,1,2,255, 1,1,2,255, 2,2,3,255, 2,2,3,255, 3,3,4,255, 3,3,4,255] 16 = 3"
  "grayAt [1,1,2,255, 1,1,2,255, 2,2,3,255, 2,2,3,255, 3,3,4,255, 3,3,4,255] 20 = 3"
  by (simp_all add: grayAt_def js_get_def gray_of_pixel)

lemma two_rows_histogram:
  "otsu_histogram
     \<lparr>data = [1,1,2,255, 1,1,2,255, 2,2,3,255, 2,2,3,255, 3,3,4,255, 3,3,4,255],
      width = 3, height = 2\<rparr>
     \<lparr>rect_x = 0, rect_y = 0, rect_w = 3, rect_h = 2\<rparr>
   = ((replicate 256 0)[1 := 2, 2 := 2, 3 := 2], 6)"
  apply (simp add: otsu_histogram_def to_int32_def Let_def pixel_index_def fl_zero fl_one fl_numeral
      upto.simps[of 0] upto.simps[of 1] upto.simps[of 2] upto.simps[of 3])
  apply (simp add: two_rows_gray hist_add_def numeral_2_eq_2)
  done

theorem otsu_replication_invariant_witness:
  "length ((replicate 256 0)[1 := 4, 2 := 1, 3 := 4] :: nat list) = 256 \<and> (0::nat) < 3 \<and>
   otsu_select (\<lambda>v. v) ((replicate 256 0)[1 := 12, 2 := 3, 3 := 12]) 27
     = otsu_select (\<lambda>v. v) ((replicate 256 0)[1 := 4, 2 := 1, 3 := 4]) 9 \<and>
   otsu_select fl ((replicate 256 0)[1 := 8, 2 := 2, 3 := 8]) 18
     = otsu_select fl ((replicate 256 0)[1 := 4, 2 := 1, 3 := 4]) 9 \<and>
   fst (otsu_histogram
     \<lparr>data = [1,1,2,255, 1,1,2,255, 2,2,3,255, 2,2,3,255, 3,3,4,255, 3,3,4,255],
      width = 3, height = 2\<rparr>
     \<lparr>rect_x = 0, rect_y = 0, rect_w = 3, rect_h = 2\<rparr>)
     = map ((*) 2) (fst (otsu_histogram
         \<lparr>data = [1,1,2,255, 2,2,3,255, 3,3,4,255], width = 3, height = 1\<rparr>
         \<lparr>rect_x = 0, rect_y = 0, rect_w = 3, rect_h = 1\<rparr>)) \<and>
   otsuThresholdFromRect
     \<lparr>data = [1,1,2,255, 1,1,2,255, 2,2,3,255, 2,2,3,255, 3,3,4,255, 3,3,4,255],
      width = 3, height = 2\<rparr>
     \<lparr>rect_x = 0, rect_y = 0, rect_w = 3, rect_h = 2\<rparr>
     = otsuThresholdFromRect
         \<lparr>data = [1,1,2,255, 2,2,3,255, 3,3,4,255], width = 3, height = 1\<rparr>
         \<lparr>rect_x = 0, rect_y = 0, rect_w = 3, rect_h = 1\<rparr>"
proof -
  let ?H = "(replicate 256 0)[1 := 4, 2 := 1, 3 := 4] :: nat list"
  have len: "length ?H = 256" by simp
  have hists: "fst ((replicate 256 0)[1 := 2, 2 := 2, 3 := 2 :: nat], 6::int)
      = map ((*) (2 ^ 1)) (fst ((replicate 256 0)[1 := 1, 2 := 1, 3 := 1], 3::int))"
    by (simp add: map_update)
  have exact: "otsu_select (\<lambda>v. v) (map ((*) 3) ?H) (int (sum_list (map ((*) 3) ?H)))
      = otsu_select (\<lambda>v. v) ((replicate 256 0)[1 := 12, 2 := 3, 3 := 12]) 27"
    by (simp only: three_levels_scale three_levels_total) simp
  have twice: "otsu_select fl (map ((*) (2 ^ 1)) ?H) (int (sum_list (map ((*) (2 ^ 1)) ?H)))
      = otsu_select fl ((replicate 256 0)[1 := 8, 2 := 2, 3 := 8]) 18"
    by (simp only: three_levels_scale three_levels_total) simp
  have nine: "int (sum_list ?H) = 9"
    by (simp only: three_levels_total)
  have two: "(2::nat) ^ 1 = 2" by simp
  show ?thesis
    using otsu_replication_invariant[OF len, of 3 1
        "\<lparr>data = [1,1,2,255, 1,1,2,255, 2,2,3,255, 2,2,3,255, 3,3,4,255, 3,3,4,255],
          width = 3, height = 2\<rparr>"
        "\<lparr>rect_x = 0, rect_y = 0, rect_w = 3, rect_h = 2\<rparr>"
        "\<lparr>data = [1,1,2,255, 2,2,3,255, 3,3,4,255], width = 3, height = 1\<rparr>"
        "\<lparr>rect_x = 0, rect_y = 0, rect_w = 3, rect_h = 1\<rparr>"]
      hists
    unfolding exact twice nine three_pixels_histogram two_rows_histogram
    by (simp only: len two) simp
qed

text \<open>
  A histogram with one occupied bin: the scan passes the empty bins before it with an
  empty background class, and leaves the loop at the occupied bin, where the foreground
  class is empty.
\<close>

lemma otsu_scan_skip_empty:
  "\<forall>t \<in> set ts. hist ! t = 0 \<Longrightarrow>
   otsu_scan rnd hist totalN sumAll (ts @ rest) (sumB, 0, varMax, th)
     = otsu_scan rnd hist totalN sumAll rest (sumB, 0, varMax, th)"
  by (induction ts) simp_all

lemma otsu_scan_single_bin:
  assumes "i < 256" and "hist = (replicate 256 0)[i := m]" and "0 < m"
  shows "otsu_scan rnd hist (int m) sumAll [0..<256] (0, 0, - 1, 128) = 128"
proof -
  have split: "[0..<256] = [0..<i] @ i # [Suc i..<256]"
    using assms(1) by (metis less_imp_le_nat upt_add_eq_append upt_conv_Cons le0 le_add_diff_inverse)
  have zeros: "\<forall>t \<in> set [0..<i]. hist ! t = 0"
    using assms(1,2) by simp
  have at: "hist ! i = m" using assms(1,2) by simp
  have "otsu_scan rnd hist (int m) sumAll [0..<256] (0, 0, - 1, 128)
      = otsu_scan rnd hist (int m) sumAll (i # [Suc i..<256]) (0, 0, - 1, 128)"
    unfolding split by (rule otsu_scan_skip_empty[OF zeros])
  also have "\<dots> = 128"
    using assms(3) by (simp add: at)
  finally show ?thesis .
qed

lemma otsu_select_single_bin:
  "i < 256 \<Longrightarrow> otsu_select rnd ((replicate 256 0)[i := m]) (int m) = 128"
  using otsu_scan_single_bin[of i "(replicate 256 0)[i := m]" m rnd]
  by (cases "m = 0") (simp_all add: otsu_select_def Let_def)

lemma hist_add_single_bin:
  "0 \<le> g \<Longrightarrow> g \<le> 255 \<Longrightarrow> hist_add ((replicate 256 0)[nat g := m]) g = (replicate 256 0)[nat g := Suc m]"
  by (simp add: hist_add_def)

lemma replicate_update_same: "(replicate n v)[i := v] = replicate n v"
  by (cases "i < n") (simp_all add: list_eq_iff_nth_eq nth_list_update)

lemma otsu_histogram_uniform:
  assumes "\<forall>x y. to_int32 (rect_x rect) \<le> x \<and> x < to_int32 (fl (rect_x rect + rect_w rect)) \<and>
                 to_int32 (rect_y rect) \<le> y \<and> y < to_int32 (fl (rect_y rect + rect_h rect))
             \<longrightarrow> grayAt (data img) (pixel_index (width img) (real_of_int x) (real_of_int y)) = g"
  shows "\<exists>m. fst (otsu_histogram img rect) = (replicate 256 0)[nat g := m]"
proof -
  define P where "P = (\<lambda>s :: nat list \<times> int. \<exists>m. fst s = (replicate 256 0)[nat g := m])"
  define step where "step = (\<lambda>y x (s :: nat list \<times> int). case s of (hist, totalN) \<Rightarrow>
                let idx = pixel_index (width img) (real_of_int x) (real_of_int y);
                    g = grayAt (data img) idx
                in (hist_add hist g, totalN + 1))"
  define x0 x1 y0 y1 where "x0 = to_int32 (rect_x rect)" and "x1 = to_int32 (fl (rect_x rect + rect_w rect))"
    and "y0 = to_int32 (rect_y rect)" and "y1 = to_int32 (fl (rect_y rect + rect_h rect))"
  have gray: "grayAt (data img) (pixel_index (width img) (real_of_int x) (real_of_int y)) = g"
    if "x \<in> set [x0..x1 - 1]" "y \<in> set [y0..y1 - 1]" for x y
    using that assms unfolding x0_def x1_def y0_def y1_def by simp
  have step: "P (step y x s)" if "P s" "x \<in> set [x0..x1 - 1]" "y \<in> set [y0..y1 - 1]" for y x s
  proof -
    obtain hist totalN where s: "s = (hist, totalN)" by (cases s)
    have "\<exists>m. hist = (replicate 256 0)[nat g := m]" using that(1) unfolding P_def s by simp
    then obtain m where m: "hist = (replicate 256 0)[nat g := m]" by blast
    have "0 \<le> g \<and> g \<le> 255"
      using grayAt_range[of "data img" "pixel_index (width img) (real_of_int x) (real_of_int y)"] gray[OF that(2,3)] by simp
    then have "hist_add hist g = (replicate 256 0)[nat g := Suc m]"
      unfolding m by (simp add: hist_add_single_bin)
    then show ?thesis
      using gray[OF that(2,3)] by (auto simp add: P_def step_def s Let_def)
  qed
  have inner: "P (fold (step y) xs s)" if "P s" "set xs \<subseteq> set [x0..x1 - 1]" "y \<in> set [y0..y1 - 1]" for y xs s
    using that by (induction xs arbitrary: s) (simp_all add: step)
  have outer: "P (fold (\<lambda>y. fold (step y) [x0..x1 - 1]) ys s)" if "P s" "set ys \<subseteq> set [y0..y1 - 1]" for ys s
    using that by (induction ys arbitrary: s) (simp_all add: inner)
  have "P (replicate 256 0, 0)"
    unfolding P_def by (rule exI[of _ 0]) (simp add: replicate_update_same)
  moreover have "otsu_histogram img rect =
      fold (\<lambda>y. fold (step y) [x0..x1 - 1]) [y0..y1 - 1] (replicate 256 0, 0)"
    by (simp add: otsu_histogram_def step_def Let_def x0_def x1_def y0_def y1_def)
  ultimately have "P (otsu_histogram img rect)"
    using outer[of "(replicate 256 0, 0)" "[y0..y1 - 1]"] by simp
  then show ?thesis by (simp add: P_def)
qed


lemma otsuThresholdFromRect_uniform:
  assumes "\<forall>x y. to_int32 (rect_x rect) \<le> x \<and> x < to_int32 (fl (rect_x rect + rect_w rect)) \<and>
                 to_int32 (rect_y rect) \<le> y \<and> y < to_int32 (fl (rect_y rect + rect_h rect))
             \<longrightarrow> grayAt (data img) (pixel_index (width img) (real_of_int x) (real_of_int y)) = g"
  shows "otsuThresholdFromRect img rect = 128"
proof -
  obtain m where m: "fst (otsu_histogram img rect) = (replicate 256 0)[nat g := m]"
    using otsu_histogram_uniform[OF assms] by blast
  show ?thesis
  proof (cases "nat g < 256")
    case True
    then have "sum_list ((replicate 256 0)[nat g := m]) = m"
      by (simp add: sum_list_update)
    then show ?thesis
      using otsu_select_single_bin[OF True, of fl m] by (simp add: otsuThresholdFromRect_select m)
  next
    case False
    then have "(replicate 256 0)[nat g := m] = replicate 256 (0::nat)"
      by (intro list_update_beyond) simp
    then show ?thesis
      by (simp add: otsuThresholdFromRect_select m otsu_select_def)
  qed
qed

text \<open>
  C10: when all the pixels of the rect have the same gray level (and also when the rect
  has no pixel), the threshold is the default 128, and the ink predicate built on the
  rect compares the gray of every pixel with 128. The pixels of the rect are those that
  the two loops visit: the integers \<open>x\<close> from \<^verbatim>\<open>rect.x | 0\<close> up to \<^verbatim>\<open>(rect.x + rect.w) | 0\<close>
  excluded, the sum being the rounded one, and the same for \<open>y\<close>.
\<close>

theorem uniform_gray_default_threshold:
  assumes "\<forall>x y. to_int32 (rect_x rect) \<le> x \<and> x < to_int32 (fl (rect_x rect + rect_w rect)) \<and>
                 to_int32 (rect_y rect) \<le> y \<and> y < to_int32 (fl (rect_y rect + rect_h rect))
             \<longrightarrow> grayAt (data img) (pixel_index (width img) (real_of_int x) (real_of_int y)) = g"
  shows "otsuThresholdFromRect img rect = 128 \<and>
         fst (buildInkFn img rect) = 128 \<and>
         (\<forall>x y. snd (buildInkFn img rect) x y
                  = (grayAt (data img) (pixel_index (width img) x y) < 128))"
  using otsuThresholdFromRect_uniform[OF assms] by (simp add: buildInkFn_def Let_def)

text \<open>
  The witness: two pixels of the gray level 10 and the rect from \<open>x = 0.1\<close> of the width
  1.9, whose sum is 2 in doubles: both columns are scanned.
\<close>

lemma two_pixels_gray:
  "grayAt [10, 10, 11, 255, 12, 9, 11, 255] 0 = 10"
  "grayAt [10, 10, 11, 255, 12, 9, 11, 255] 4 = 10"
  by (simp_all add: grayAt_def js_get_def gray_of_pixel)

lemma double_nineteen_tenths: "fl (19 / 10) = 4278419646001971 / 2 ^ 51"
  by (simp add: fl_def rne_def ilog2.simps Let_def)

lemma double_sum_two: "fl (3602879701896397 / 2 ^ 55 + 4278419646001971 / 2 ^ 51) = 2"
  by (simp add: fl_def rne_def ilog2.simps Let_def)

lemma fraction_rect_columns:
  "to_int32 (fl (1 / 10)) = 0"
  "to_int32 (fl (fl (1 / 10) + fl (19 / 10))) = 2"
  "to_int32 0 = 0"
  "to_int32 (fl (0 + 1)) = 1"
proof -
  show "to_int32 (fl (1 / 10)) = 0"
    by (simp only: double_tenth) (simp add: to_int32_def)
  show "to_int32 (fl (fl (1 / 10) + fl (19 / 10))) = 2"
    by (simp only: double_tenth double_nineteen_tenths double_sum_two) (simp add: to_int32_def)
  show "to_int32 0 = 0" by (simp add: to_int32_def)
  show "to_int32 (fl (0 + 1)) = 1" by (simp add: to_int32_def fl_one)
qed

lemma two_pixels_index:
  "pixel_index 2 0 0 = 0"
  "pixel_index 2 1 0 = 4"
  by (simp_all add: pixel_index_def fl_zero fl_one fl_numeral)

theorem uniform_gray_default_threshold_witness:
  "otsuThresholdFromRect \<lparr>data = [10, 10, 11, 255, 12, 9, 11, 255], width = 2, height = 1\<rparr>
     \<lparr>rect_x = fl (1 / 10), rect_y = 0, rect_w = fl (19 / 10), rect_h = 1\<rparr> = 128 \<and>
   fst (buildInkFn \<lparr>data = [10, 10, 11, 255, 12, 9, 11, 255], width = 2, height = 1\<rparr>
     \<lparr>rect_x = fl (1 / 10), rect_y = 0, rect_w = fl (19 / 10), rect_h = 1\<rparr>) = 128 \<and>
   snd (buildInkFn \<lparr>data = [10, 10, 11, 255, 12, 9, 11, 255], width = 2, height = 1\<rparr>
     \<lparr>rect_x = fl (1 / 10), rect_y = 0, rect_w = fl (19 / 10), rect_h = 1\<rparr>) 1 0"
proof -
  let ?img = "\<lparr>data = [10, 10, 11, 255, 12, 9, 11, 255], width = 2, height = 1\<rparr>"
  let ?rect = "\<lparr>rect_x = fl (1 / 10), rect_y = 0, rect_w = fl (19 / 10), rect_h = 1\<rparr>"
  have "grayAt (data ?img) (pixel_index (width ?img) (real_of_int x) (real_of_int y)) = 10"
    if "to_int32 (rect_x ?rect) \<le> x \<and> x < to_int32 (fl (rect_x ?rect + rect_w ?rect)) \<and>
        to_int32 (rect_y ?rect) \<le> y \<and> y < to_int32 (fl (rect_y ?rect + rect_h ?rect))" for x y
  proof -
    have "0 \<le> x \<and> x < 2 \<and> 0 \<le> y \<and> y < 1"
      using that by (simp only: Rect.select_convs fraction_rect_columns)
    then have "y = 0" and "x = 0 \<or> x = 1" by auto
    then show ?thesis using two_pixels_gray two_pixels_index by auto
  qed
  then have "\<forall>x y. to_int32 (rect_x ?rect) \<le> x \<and> x < to_int32 (fl (rect_x ?rect + rect_w ?rect)) \<and>
                 to_int32 (rect_y ?rect) \<le> y \<and> y < to_int32 (fl (rect_y ?rect + rect_h ?rect))
             \<longrightarrow> grayAt (data ?img) (pixel_index (width ?img) (real_of_int x) (real_of_int y)) = 10"
    by blast
  from uniform_gray_default_threshold[OF this] show ?thesis
    using two_pixels_gray two_pixels_index by simp
qed

section \<open>Locating the axes\<close>

text \<open>
  A counter between \<open>-2^51\<close> and \<open>2^51\<close> advances by at least a half: \<open>x + 1\<close> is rounded by
  at most a half there.
\<close>

lemma counter_advances:
  assumes "- (2 ^ 51) \<le> a" and "a < b" and "b \<le> 2 ^ 51"
  shows "a + 1 / 2 \<le> fl (a + 1)"
proof -
  have "\<bar>a + 1\<bar> \<le> 2 ^ 52" using assms by (simp add: abs_le_iff)
  then have "\<bar>fl (a + 1) - (a + 1)\<bar> \<le> 2 ^ 52 * (1 / 2 ^ 53)" by (rule fl_error_le)
  then have "\<bar>fl (a + 1) - (a + 1)\<bar> \<le> 1 / 2" by simp
  then show ?thesis by linarith
qed

lemma scan_positions_cases:
  assumes "scan_positions a b = Some vs"
  shows "(\<not> a < b \<and> vs = []) \<or>
         (a < b \<and> (\<exists>vs'. scan_positions (fl (a + 1)) b = Some vs' \<and> vs = a # vs'))"
proof (cases "a < b")
  case False
  then show ?thesis using assms by (subst (asm) scan_positions.simps) simp
next
  case True
  then have "Option.bind (scan_positions (fl (a + 1)) b) (\<lambda>vs. Some (a # vs)) = Some vs"
    using assms by (subst (asm) scan_positions.simps) simp
  then show ?thesis using True by (auto simp add: bind_eq_Some_conv)
qed

text \<open>
  The loop over the positions from \<open>a\<close> up to \<open>b\<close> ends when both are within \<open>2^51\<close>; the
  positions are below \<open>b\<close> and increase, from \<open>a\<close> on.
\<close>

lemma scan_positions_total:
  assumes "- (2 ^ 51) \<le> a" and "b \<le> 2 ^ 51"
  shows "\<exists>vs. scan_positions a b = Some vs \<and> (\<forall>v \<in> set vs. a \<le> v \<and> v < b) \<and>
              sorted_wrt (<) vs \<and> (a < b \<longrightarrow> vs \<noteq> [] \<and> hd vs = a)"
  using assms(1)
proof (induction "nat \<lceil>2 * (b - a)\<rceil>" arbitrary: a rule: less_induct)
  case less
  show ?case
  proof (cases "a < b")
    case False
    then have "scan_positions a b = Some []" by (subst scan_positions.simps) simp
    then show ?thesis using False by simp
  next
    case True
    have adv: "a + 1 / 2 \<le> fl (a + 1)"
      using less.prems True assms(2) by (rule counter_advances)
    have "2 * (b - fl (a + 1)) \<le> 2 * (b - a) - 1" using adv by simp
    then have "\<lceil>2 * (b - fl (a + 1))\<rceil> \<le> \<lceil>2 * (b - a)\<rceil> - 1"
      by (metis ceiling_diff_one ceiling_mono)
    moreover have "0 < \<lceil>2 * (b - a)\<rceil>" using True by (simp add: zero_less_ceiling)
    ultimately have m: "nat \<lceil>2 * (b - fl (a + 1))\<rceil> < nat \<lceil>2 * (b - a)\<rceil>" by linarith
    have low: "- (2 ^ 51) \<le> fl (a + 1)" using adv less.prems by linarith
    obtain vs where vs: "scan_positions (fl (a + 1)) b = Some vs"
      and bnd: "\<forall>v \<in> set vs. fl (a + 1) \<le> v \<and> v < b" and srt: "sorted_wrt (<) vs"
      using less.hyps[OF m low] by blast
    have s: "scan_positions a b = Some (a # vs)"
      using True vs by (subst scan_positions.simps) simp
    have "\<forall>v \<in> set vs. a < v" using bnd adv by force
    then show ?thesis using s bnd srt True by auto
  qed
qed

text \<open>The inner loops count the ink at the positions.\<close>

lemma row_ink_scan:
  "scan_positions x (fl (rect_x r + rect_w r)) = Some vs \<Longrightarrow>
   row_ink isInk r y x s = Some (s + int (length (filter (\<lambda>x'. isInk x' y) vs)))"
proof (induction vs arbitrary: x s)
  case Nil
  then have "\<not> x < fl (rect_x r + rect_w r)" using scan_positions_cases[OF Nil] by simp
  then show ?case by (subst row_ink.simps) simp
next
  case (Cons v vs)
  from scan_positions_cases[OF Cons.prems]
  have lt: "x < fl (rect_x r + rect_w r)" and nx: "scan_positions (fl (x + 1)) (fl (rect_x r + rect_w r)) = Some vs"
    and v: "v = x" by auto
  show ?case
    using lt Cons.IH[OF nx, of "if isInk x y then s + 1 else s"]
    by (subst row_ink.simps) (simp add: v)
qed

lemma col_ink_scan:
  "scan_positions y (fl (rect_y r + rect_h r)) = Some vs \<Longrightarrow>
   col_ink isInk r x y s = Some (s + int (length (filter (\<lambda>y'. isInk x y') vs)))"
proof (induction vs arbitrary: y s)
  case Nil
  then have "\<not> y < fl (rect_y r + rect_h r)" using scan_positions_cases[OF Nil] by simp
  then show ?case by (subst col_ink.simps) simp
next
  case (Cons v vs)
  from scan_positions_cases[OF Cons.prems]
  have lt: "y < fl (rect_y r + rect_h r)" and nx: "scan_positions (fl (y + 1)) (fl (rect_y r + rect_h r)) = Some vs"
    and v: "v = y" by auto
  show ?case
    using lt Cons.IH[OF nx, of "if isInk x y then s + 1 else s"]
    by (subst col_ink.simps) (simp add: v)
qed

text \<open>
  The loop of \<open>findXAxisY\<close> from the row \<open>y\<close> on: either no remaining row has more ink
  than \<open>best\<close> and \<open>bestY\<close> is returned, or the first of the remaining rows with the
  greatest count is, and that count exceeds \<open>best\<close>.
\<close>

lemma findXAxisY_loop_first_max:
  assumes "scan_positions (rect_x r) (fl (rect_x r + rect_w r)) = Some cols"
    and "scan_positions y (fl (rect_y r + rect_h r)) = Some rows"
    and "sorted_wrt (<) rows"
  shows "\<exists>res. findXAxisY_loop isInk r y best bestY = Some res \<and>
    (((\<forall>v \<in> set rows. row_ink_count isInk cols v \<le> best) \<and> res = bestY) \<or>
     (res \<in> set rows \<and> best < row_ink_count isInk cols res \<and>
      (\<forall>v \<in> set rows. row_ink_count isInk cols v \<le> row_ink_count isInk cols res \<and>
         (v < res \<longrightarrow> row_ink_count isInk cols v < row_ink_count isInk cols res))))"
  using assms(2,3)
proof (induction rows arbitrary: y best bestY)
  case Nil
  then have "\<not> y < fl (rect_y r + rect_h r)" using scan_positions_cases[OF Nil(1)] by simp
  then have "findXAxisY_loop isInk r y best bestY = Some bestY"
    by (subst findXAxisY_loop.simps) simp
  then show ?case by simp
next
  case (Cons v rows)
  from scan_positions_cases[OF Cons.prems(1)]
  have lt: "y < fl (rect_y r + rect_h r)"
    and nx: "scan_positions (fl (y + 1)) (fl (rect_y r + rect_h r)) = Some rows"
    and v: "v = y" by auto
  have srt: "sorted_wrt (<) rows" and later: "\<forall>w \<in> set rows. y < w"
    using Cons.prems(2) v by auto
  define s where "s = row_ink_count isInk cols y"
  have ink: "row_ink isInk r y (rect_x r) 0 = Some s"
    using row_ink_scan[OF assms(1), of isInk y 0] by (simp add: s_def row_ink_count_def)
  show ?case
  proof (cases "s > best")
    case True
    have unf: "findXAxisY_loop isInk r y best bestY = findXAxisY_loop isInk r (fl (y + 1)) s y"
      using lt True by (subst findXAxisY_loop.simps) (simp add: ink)
    obtain res where res: "findXAxisY_loop isInk r (fl (y + 1)) s y = Some res"
      and alt: "((\<forall>w \<in> set rows. row_ink_count isInk cols w \<le> s) \<and> res = y) \<or>
        (res \<in> set rows \<and> s < row_ink_count isInk cols res \<and>
         (\<forall>w \<in> set rows. row_ink_count isInk cols w \<le> row_ink_count isInk cols res \<and>
            (w < res \<longrightarrow> row_ink_count isInk cols w < row_ink_count isInk cols res)))"
      using Cons.IH[OF nx srt, of s y] by blast
    from alt show ?thesis
    proof
      assume a: "(\<forall>w \<in> set rows. row_ink_count isInk cols w \<le> s) \<and> res = y"
      then have "res \<in> set (v # rows)" "best < row_ink_count isInk cols res"
        using True by (simp_all add: v s_def)
      moreover have "\<forall>w \<in> set (v # rows). row_ink_count isInk cols w \<le> row_ink_count isInk cols res \<and>
         (w < res \<longrightarrow> row_ink_count isInk cols w < row_ink_count isInk cols res)"
        using a later by (auto simp add: v s_def)
      ultimately show ?thesis unfolding unf res by blast
    next
      assume a: "res \<in> set rows \<and> s < row_ink_count isInk cols res \<and>
         (\<forall>w \<in> set rows. row_ink_count isInk cols w \<le> row_ink_count isInk cols res \<and>
            (w < res \<longrightarrow> row_ink_count isInk cols w < row_ink_count isInk cols res))"
      then have "res \<in> set (v # rows)" "best < row_ink_count isInk cols res"
        using True by simp_all
      moreover have "\<forall>w \<in> set (v # rows). row_ink_count isInk cols w \<le> row_ink_count isInk cols res \<and>
         (w < res \<longrightarrow> row_ink_count isInk cols w < row_ink_count isInk cols res)"
        using a by (auto simp add: v s_def)
      ultimately show ?thesis unfolding unf res by blast
    qed
  next
    case False
    have unf: "findXAxisY_loop isInk r y best bestY = findXAxisY_loop isInk r (fl (y + 1)) best bestY"
      using lt False by (subst findXAxisY_loop.simps) (simp add: ink)
    obtain res where res: "findXAxisY_loop isInk r (fl (y + 1)) best bestY = Some res"
      and alt: "((\<forall>w \<in> set rows. row_ink_count isInk cols w \<le> best) \<and> res = bestY) \<or>
        (res \<in> set rows \<and> best < row_ink_count isInk cols res \<and>
         (\<forall>w \<in> set rows. row_ink_count isInk cols w \<le> row_ink_count isInk cols res \<and>
            (w < res \<longrightarrow> row_ink_count isInk cols w < row_ink_count isInk cols res)))"
      using Cons.IH[OF nx srt, of best bestY] by blast
    from alt show ?thesis
    proof
      assume a: "(\<forall>w \<in> set rows. row_ink_count isInk cols w \<le> best) \<and> res = bestY"
      then have "(\<forall>w \<in> set (v # rows). row_ink_count isInk cols w \<le> best) \<and> res = bestY"
        using False by (simp add: v s_def)
      then show ?thesis unfolding unf res by blast
    next
      assume a: "res \<in> set rows \<and> best < row_ink_count isInk cols res \<and>
         (\<forall>w \<in> set rows. row_ink_count isInk cols w \<le> row_ink_count isInk cols res \<and>
            (w < res \<longrightarrow> row_ink_count isInk cols w < row_ink_count isInk cols res))"
      then have "res \<in> set (v # rows)" "best < row_ink_count isInk cols res" by simp_all
      moreover have "\<forall>w \<in> set (v # rows). row_ink_count isInk cols w \<le> row_ink_count isInk cols res \<and>
         (w < res \<longrightarrow> row_ink_count isInk cols w < row_ink_count isInk cols res)"
        using a False by (auto simp add: v s_def)
      ultimately show ?thesis unfolding unf res by blast
    qed
  qed
qed


lemma findYAxisX_loop_first_max:
  assumes "scan_positions (rect_y r) (fl (rect_y r + rect_h r)) = Some rows"
    and "scan_positions x (fl (rect_x r + rect_w r)) = Some cols"
    and "sorted_wrt (<) cols"
  shows "\<exists>res. findYAxisX_loop isInk r x best bestX = Some res \<and>
    (((\<forall>v \<in> set cols. col_ink_count isInk rows v \<le> best) \<and> res = bestX) \<or>
     (res \<in> set cols \<and> best < col_ink_count isInk rows res \<and>
      (\<forall>v \<in> set cols. col_ink_count isInk rows v \<le> col_ink_count isInk rows res \<and>
         (v < res \<longrightarrow> col_ink_count isInk rows v < col_ink_count isInk rows res))))"
  using assms(2,3)
proof (induction cols arbitrary: x best bestX)
  case Nil
  then have "\<not> x < fl (rect_x r + rect_w r)" using scan_positions_cases[OF Nil(1)] by simp
  then have "findYAxisX_loop isInk r x best bestX = Some bestX"
    by (subst findYAxisX_loop.simps) simp
  then show ?case by simp
next
  case (Cons v cols)
  from scan_positions_cases[OF Cons.prems(1)]
  have lt: "x < fl (rect_x r + rect_w r)"
    and nx: "scan_positions (fl (x + 1)) (fl (rect_x r + rect_w r)) = Some cols"
    and v: "v = x" by auto
  have srt: "sorted_wrt (<) cols" and later: "\<forall>w \<in> set cols. x < w"
    using Cons.prems(2) v by auto
  define s where "s = col_ink_count isInk rows x"
  have ink: "col_ink isInk r x (rect_y r) 0 = Some s"
    using col_ink_scan[OF assms(1), of isInk x 0] by (simp add: s_def col_ink_count_def)
  show ?case
  proof (cases "s > best")
    case True
    have unf: "findYAxisX_loop isInk r x best bestX = findYAxisX_loop isInk r (fl (x + 1)) s x"
      using lt True by (subst findYAxisX_loop.simps) (simp add: ink)
    obtain res where res: "findYAxisX_loop isInk r (fl (x + 1)) s x = Some res"
      and alt: "((\<forall>w \<in> set cols. col_ink_count isInk rows w \<le> s) \<and> res = x) \<or>
        (res \<in> set cols \<and> s < col_ink_count isInk rows res \<and>
         (\<forall>w \<in> set cols. col_ink_count isInk rows w \<le> col_ink_count isInk rows res \<and>
            (w < res \<longrightarrow> col_ink_count isInk rows w < col_ink_count isInk rows res)))"
      using Cons.IH[OF nx srt, of s x] by blast
    from alt show ?thesis
    proof
      assume a: "(\<forall>w \<in> set cols. col_ink_count isInk rows w \<le> s) \<and> res = x"
      then have "res \<in> set (v # cols)" "best < col_ink_count isInk rows res"
        using True by (simp_all add: v s_def)
      moreover have "\<forall>w \<in> set (v # cols). col_ink_count isInk rows w \<le> col_ink_count isInk rows res \<and>
         (w < res \<longrightarrow> col_ink_count isInk rows w < col_ink_count isInk rows res)"
        using a later by (auto simp add: v s_def)
      ultimately show ?thesis unfolding unf res by blast
    next
      assume a: "res \<in> set cols \<and> s < col_ink_count isInk rows res \<and>
         (\<forall>w \<in> set cols. col_ink_count isInk rows w \<le> col_ink_count isInk rows res \<and>
            (w < res \<longrightarrow> col_ink_count isInk rows w < col_ink_count isInk rows res))"
      then have "res \<in> set (v # cols)" "best < col_ink_count isInk rows res"
        using True by simp_all
      moreover have "\<forall>w \<in> set (v # cols). col_ink_count isInk rows w \<le> col_ink_count isInk rows res \<and>
         (w < res \<longrightarrow> col_ink_count isInk rows w < col_ink_count isInk rows res)"
        using a by (auto simp add: v s_def)
      ultimately show ?thesis unfolding unf res by blast
    qed
  next
    case False
    have unf: "findYAxisX_loop isInk r x best bestX = findYAxisX_loop isInk r (fl (x + 1)) best bestX"
      using lt False by (subst findYAxisX_loop.simps) (simp add: ink)
    obtain res where res: "findYAxisX_loop isInk r (fl (x + 1)) best bestX = Some res"
      and alt: "((\<forall>w \<in> set cols. col_ink_count isInk rows w \<le> best) \<and> res = bestX) \<or>
        (res \<in> set cols \<and> best < col_ink_count isInk rows res \<and>
         (\<forall>w \<in> set cols. col_ink_count isInk rows w \<le> col_ink_count isInk rows res \<and>
            (w < res \<longrightarrow> col_ink_count isInk rows w < col_ink_count isInk rows res)))"
      using Cons.IH[OF nx srt, of best bestX] by blast
    from alt show ?thesis
    proof
      assume a: "(\<forall>w \<in> set cols. col_ink_count isInk rows w \<le> best) \<and> res = bestX"
      then have "(\<forall>w \<in> set (v # cols). col_ink_count isInk rows w \<le> best) \<and> res = bestX"
        using False by (simp add: v s_def)
      then show ?thesis unfolding unf res by blast
    next
      assume a: "res \<in> set cols \<and> best < col_ink_count isInk rows res \<and>
         (\<forall>w \<in> set cols. col_ink_count isInk rows w \<le> col_ink_count isInk rows res \<and>
            (w < res \<longrightarrow> col_ink_count isInk rows w < col_ink_count isInk rows res))"
      then have "res \<in> set (v # cols)" "best < col_ink_count isInk rows res" by simp_all
      moreover have "\<forall>w \<in> set (v # cols). col_ink_count isInk rows w \<le> col_ink_count isInk rows res \<and>
         (w < res \<longrightarrow> col_ink_count isInk rows w < col_ink_count isInk rows res)"
        using a False by (auto simp add: v s_def)
      ultimately show ?thesis unfolding unf res by blast
    qed
  qed
qed

text \<open>
  The clamped rect of an image of at most \<open>2^32\<close> by \<open>2^32\<close> pixels: its origin and its
  rounded far end are within \<open>2^51\<close>, and the far end is beyond the origin.
\<close>

lemma fl_le_twice:
  assumes "x \<le> c" and "0 \<le> c"
  shows "fl x \<le> 2 * c"
proof (cases "0 \<le> x")
  case True
  have "fl x \<le> x * (1 + 1 / 2 ^ 53)" using True by (rule fl_upper)
  also have "\<dots> \<le> x * 2" using True by (intro mult_left_mono) auto
  finally show ?thesis using assms(1) by simp
next
  case False
  then have "fl x \<le> 0" by (intro fl_nonpos) simp
  then show ?thesis using assms(2) by simp
qed

lemma clamp_range:
  fixes v v' :: real
  assumes "W \<le> 2 ^ 32"
  defines "x \<equiv> max 0 (min (fl (real_of_int W - 1)) v)"
  defines "w \<equiv> max 1 (min (fl (real_of_int W - x)) v')"
  shows "- (2 ^ 51) \<le> x \<and> fl (x + w) \<le> 2 ^ 51 \<and> x < fl (x + w)"
proof -
  have W: "real_of_int W \<le> 2 ^ 32" using assms(1) by (simp add: of_int_le_iff[symmetric] del: of_int_le_iff)
  have x0: "0 \<le> x" by (simp add: x_def)
  have "fl (real_of_int W - 1) \<le> 2 * 2 ^ 32" using W by (intro fl_le_twice) auto
  then have x1: "x \<le> 2 ^ 33" by (simp add: x_def)
  have w0: "1 \<le> w" by (simp add: w_def)
  have "fl (real_of_int W - x) \<le> 2 * 2 ^ 32" using W x0 by (intro fl_le_twice) auto
  then have w1: "w \<le> 2 ^ 33" by (simp add: w_def)
  have s: "0 \<le> x + w" "x + w \<le> 2 ^ 34" using x0 x1 w0 w1 by simp_all
  have "fl (x + w) \<le> 2 * 2 ^ 34" using s by (intro fl_le_twice) auto
  then have b: "fl (x + w) \<le> 2 ^ 51" by simp
  have "\<bar>x + w\<bar> \<le> 2 ^ 34" using s by simp
  then have "\<bar>fl (x + w) - (x + w)\<bar> \<le> 2 ^ 34 * (1 / 2 ^ 53)" by (rule fl_error_le)
  then have "\<bar>fl (x + w) - (x + w)\<bar> \<le> 1 / 2" by simp
  then have "x < fl (x + w)" using w0 by linarith
  then show ?thesis using x0 b by simp
qed

lemma clampRect_range:
  fixes roi :: Rect
  assumes "W \<le> 2 ^ 32" and "H \<le> 2 ^ 32"
  defines "r \<equiv> clampRect roi (real_of_int W) (real_of_int H)"
  shows "- (2 ^ 51) \<le> rect_x r \<and> fl (rect_x r + rect_w r) \<le> 2 ^ 51 \<and> rect_x r < fl (rect_x r + rect_w r)"
    and "- (2 ^ 51) \<le> rect_y r \<and> fl (rect_y r + rect_h r) \<le> 2 ^ 51 \<and> rect_y r < fl (rect_y r + rect_h r)"
  unfolding r_def clampRect_def Let_def Rect.select_convs
  using clamp_range[OF assms(1), of "rect_x roi" "rect_w roi"]
    clamp_range[OF assms(2), of "rect_y roi" "rect_h roi"]
  by simp_all

text \<open>
  C6: for an image of at most \<open>2^32\<close> by \<open>2^32\<close> pixels, the loops of \<open>findXAxisY\<close> end. The rows
  of the clamped ROI are the values of the loop counter, from the clamped \<open>y\<close> on and
  increasing; \<open>findXAxisY\<close> returns one of them whose ink count, over the columns of the
  clamped ROI, is the greatest of all the rows, and every row above it (of smaller \<open>y\<close>)
  has a strictly smaller count: the first maximum wins. The same holds of \<open>findYAxisX\<close>
  and the columns.
\<close>

theorem axis_locator_first_maximum:
  assumes "width img \<le> 2 ^ 32" and "height img \<le> 2 ^ 32"
    and "r = clampRect roi (real_of_int (width img)) (real_of_int (height img))"
  shows "\<exists>rows cols y x.
     scan_positions (rect_y r) (fl (rect_y r + rect_h r)) = Some rows \<and>
     scan_positions (rect_x r) (fl (rect_x r + rect_w r)) = Some cols \<and>
     hd rows = rect_y r \<and> sorted_wrt (<) rows \<and> hd cols = rect_x r \<and> sorted_wrt (<) cols \<and>
     findXAxisY img roi isInk = Some y \<and> y \<in> set rows \<and>
     (\<forall>v \<in> set rows. row_ink_count isInk cols v \<le> row_ink_count isInk cols y \<and>
        (v < y \<longrightarrow> row_ink_count isInk cols v < row_ink_count isInk cols y)) \<and>
     findYAxisX img roi isInk = Some x \<and> x \<in> set cols \<and>
     (\<forall>v \<in> set cols. col_ink_count isInk rows v \<le> col_ink_count isInk rows x \<and>
        (v < x \<longrightarrow> col_ink_count isInk rows v < col_ink_count isInk rows x))"
proof -
  note rx = clampRect_range(1)[OF assms(1,2), of roi, folded assms(3)]
  note ry = clampRect_range(2)[OF assms(1,2), of roi, folded assms(3)]
  obtain rows where rows: "scan_positions (rect_y r) (fl (rect_y r + rect_h r)) = Some rows"
    and rsrt: "sorted_wrt (<) rows" and rne: "rows \<noteq> []" and rhd: "hd rows = rect_y r"
    using scan_positions_total[of "rect_y r" "fl (rect_y r + rect_h r)"] ry by blast
  obtain cols where cols: "scan_positions (rect_x r) (fl (rect_x r + rect_w r)) = Some cols"
    and csrt: "sorted_wrt (<) cols" and cne: "cols \<noteq> []" and chd: "hd cols = rect_x r"
    using scan_positions_total[of "rect_x r" "fl (rect_x r + rect_w r)"] rx by blast
  have fy: "findXAxisY img roi isInk = findXAxisY_loop isInk r (rect_y r) (- 1) (rect_y r)"
    by (simp add: findXAxisY_def assms(3) Let_def)
  have fx: "findYAxisX img roi isInk = findYAxisX_loop isInk r (rect_x r) (- 1) (rect_x r)"
    by (simp add: findYAxisX_def assms(3) Let_def)
  have "rect_y r \<in> set rows" using rne rhd by (cases rows) auto
  moreover have "0 \<le> row_ink_count isInk cols (rect_y r)" by (simp add: row_ink_count_def)
  ultimately have ny: "\<not> (\<forall>v \<in> set rows. row_ink_count isInk cols v \<le> - 1)" by force
  obtain y where y: "findXAxisY img roi isInk = Some y" and ymax: "y \<in> set rows \<and>
      (\<forall>v \<in> set rows. row_ink_count isInk cols v \<le> row_ink_count isInk cols y \<and>
        (v < y \<longrightarrow> row_ink_count isInk cols v < row_ink_count isInk cols y))"
    using findXAxisY_loop_first_max[OF cols rows rsrt, of isInk "- 1" "rect_y r"] ny
    unfolding fy by blast
  have "rect_x r \<in> set cols" using cne chd by (cases cols) auto
  moreover have "0 \<le> col_ink_count isInk rows (rect_x r)" by (simp add: col_ink_count_def)
  ultimately have nx: "\<not> (\<forall>v \<in> set cols. col_ink_count isInk rows v \<le> - 1)" by force
  obtain x where x: "findYAxisX img roi isInk = Some x" and xmax: "x \<in> set cols \<and>
      (\<forall>v \<in> set cols. col_ink_count isInk rows v \<le> col_ink_count isInk rows x \<and>
        (v < x \<longrightarrow> col_ink_count isInk rows v < col_ink_count isInk rows x))"
    using findYAxisX_loop_first_max[OF rows cols csrt, of isInk "- 1" "rect_x r"] nx
    unfolding fx by blast
  show ?thesis
    using rows cols rhd rsrt chd csrt y ymax x xmax by blast
qed

text \<open>
  The witness: an image of 3 by 3 pixels and the ROI of the height 2 from \<open>y = 0.18\<close>. In
  doubles \<open>0.18 + 2\<close> is \<open>2.18\<close> and \<open>0.18 + 1 + 1\<close> is \<open>2.1799999999999997\<close>, so the loop visits the
  three rows \<open>0.18\<close>, \<open>1.18\<close> and \<open>2.1799999999999997\<close>. The ink is in the column 1 below \<open>y = 2\<close>:
  the third row and the column 1 are returned.
\<close>

lemma scan_three:
  assumes "a0 < b" and "fl (a0 + 1) = a1" and "a1 < b" and "fl (a1 + 1) = a2" and "a2 < b"
    and "fl (a2 + 1) = a3" and "\<not> a3 < b"
  shows "scan_positions a0 b = Some [a0, a1, a2]"
proof -
  have "scan_positions a3 b = Some []"
    using assms(7) by (subst scan_positions.simps) simp
  then have "scan_positions a2 b = Some [a2]"
    using assms(5,6) by (subst scan_positions.simps) simp
  then have "scan_positions a1 b = Some [a1, a2]"
    using assms(3,4) by (subst scan_positions.simps) simp
  then show ?thesis
    using assms(1,2) by (subst scan_positions.simps) simp
qed

lemma double_018: "fl (18 / 100) = 3242591731706757 / 2 ^ 54"
  by (simp add: fl_def rne_def ilog2.simps Let_def)

lemma fraction_rows_end: "fl (3242591731706757 / 2 ^ 54 + 2) = 4908923593833841 / 2 ^ 51"
  by (simp add: fl_def rne_def ilog2.simps Let_def)

lemma fraction_rows_steps:
  "fl (3242591731706757 / 2 ^ 54 + 1) = 5314247560297185 / 2 ^ 52"
  "fl (5314247560297185 / 2 ^ 52 + 1) = 306807724614615 / 2 ^ 47"
  "fl (306807724614615 / 2 ^ 47 + 1) = 447545212969943 / 2 ^ 47"
  by (simp_all add: fl_def rne_def ilog2.simps Let_def)

lemma fraction_rows:
  "scan_positions (3242591731706757 / 2 ^ 54) (4908923593833841 / 2 ^ 51)
     = Some [3242591731706757 / 2 ^ 54, 5314247560297185 / 2 ^ 52, 306807724614615 / 2 ^ 47]"
  by (rule scan_three[OF _ fraction_rows_steps(1) _ fraction_rows_steps(2) _ fraction_rows_steps(3)])
     simp_all

lemma integer_columns: "scan_positions 0 3 = Some [0, 1, 2]"
  by (rule scan_three[of 0 3 1 2 3]) (simp_all add: fl_one fl_numeral)

lemma fraction_clamp:
  "clampRect \<lparr>rect_x = 0, rect_y = fl (18 / 100), rect_w = 3, rect_h = 2\<rparr> 3 3
     = \<lparr>rect_x = 0, rect_y = 3242591731706757 / 2 ^ 54, rect_w = 3, rect_h = 2\<rparr>"
proof -
  have two: "fl (3 - 1) = 2" by (simp add: fl_numeral)
  have x: "max 0 (min (fl (3 - 1)) 0) = 0" by (simp add: fl_numeral)
  have y: "max 0 (min (fl (3 - 1)) (fl (18 / 100))) = 3242591731706757 / 2 ^ 54"
    by (simp only: two double_018) simp
  have w: "max 1 (min (fl (3 - 0)) 3) = 3" by (simp add: fl_numeral)
  have "(3 - 3242591731706757 / 2 ^ 54) * (1 - 1 / 2 ^ 53) \<le> fl (3 - 3242591731706757 / 2 ^ 54)"
    by (rule fl_lower) simp
  moreover have "2 \<le> (3 - 3242591731706757 / 2 ^ 54) * (1 - 1 / 2 ^ 53 :: real)" by simp
  ultimately have "2 \<le> fl (3 - 3242591731706757 / 2 ^ 54)" by linarith
  then have h: "max 1 (min (fl (3 - 3242591731706757 / 2 ^ 54)) 2) = 2" by simp
  show ?thesis
    by (simp only: clampRect_def Let_def Rect.select_convs x y w h)
qed

theorem axis_locator_first_maximum_witness:
  "(3::int) \<le> 2 ^ 32 \<and>
   scan_positions (3242591731706757 / 2 ^ 54) (fl (3242591731706757 / 2 ^ 54 + 2))
     = Some [3242591731706757 / 2 ^ 54, 5314247560297185 / 2 ^ 52, 306807724614615 / 2 ^ 47] \<and>
   findXAxisY \<lparr>data = [], width = 3, height = 3\<rparr>
     \<lparr>rect_x = 0, rect_y = fl (18 / 100), rect_w = 3, rect_h = 2\<rparr> (\<lambda>x y. x = 1 \<and> 2 < y)
     = Some (306807724614615 / 2 ^ 47) \<and>
   findYAxisX \<lparr>data = [], width = 3, height = 3\<rparr>
     \<lparr>rect_x = 0, rect_y = fl (18 / 100), rect_w = 3, rect_h = 2\<rparr> (\<lambda>x y. x = 1 \<and> 2 < y)
     = Some 1"
proof -
  let ?img = "\<lparr>data = [], width = 3, height = 3\<rparr>"
  let ?roi = "\<lparr>rect_x = 0, rect_y = fl (18 / 100), rect_w = 3, rect_h = 2\<rparr>"
  let ?r = "\<lparr>rect_x = 0, rect_y = 3242591731706757 / 2 ^ 54, rect_w = 3, rect_h = 2\<rparr>"
  let ?ink = "\<lambda>x y :: real. x = 1 \<and> 2 < y"
  have r: "?r = clampRect ?roi (real_of_int (width ?img)) (real_of_int (height ?img))"
    using fraction_clamp by simp
  have rows: "scan_positions (rect_y ?r) (fl (rect_y ?r + rect_h ?r))
      = Some [3242591731706757 / 2 ^ 54, 5314247560297185 / 2 ^ 52, 306807724614615 / 2 ^ 47]"
    by (simp only: Rect.select_convs fraction_rows_end fraction_rows)
  have cols: "scan_positions (rect_x ?r) (fl (rect_x ?r + rect_w ?r)) = Some [0, 1, 2]"
    by (simp add: fl_numeral integer_columns)
  obtain rows' cols' y x where
    rows': "scan_positions (rect_y ?r) (fl (rect_y ?r + rect_h ?r)) = Some rows'"
    and cols': "scan_positions (rect_x ?r) (fl (rect_x ?r + rect_w ?r)) = Some cols'"
    and y: "findXAxisY ?img ?roi ?ink = Some y" "y \<in> set rows'"
      "\<forall>v \<in> set rows'. row_ink_count ?ink cols' v \<le> row_ink_count ?ink cols' y"
    and x: "findYAxisX ?img ?roi ?ink = Some x" "x \<in> set cols'"
      "\<forall>v \<in> set cols'. col_ink_count ?ink rows' v \<le> col_ink_count ?ink rows' x"
    using axis_locator_first_maximum[of ?img ?r ?roi ?ink, OF _ _ r] by auto
  have re: "rows' = [3242591731706757 / 2 ^ 54, 5314247560297185 / 2 ^ 52, 306807724614615 / 2 ^ 47]"
    using rows rows' by simp
  have ce: "cols' = [0, 1, 2]" using cols cols' by simp
  have rc: "row_ink_count ?ink cols' (306807724614615 / 2 ^ 47) = 1"
    "row_ink_count ?ink cols' (3242591731706757 / 2 ^ 54) = 0"
    "row_ink_count ?ink cols' (5314247560297185 / 2 ^ 52) = 0"
    unfolding ce by (simp_all add: row_ink_count_def)
  have "row_ink_count ?ink cols' (306807724614615 / 2 ^ 47) \<le> row_ink_count ?ink cols' y"
    using y(3) unfolding re by simp
  then have yge: "1 \<le> row_ink_count ?ink cols' y" by (simp only: rc)
  have "y = 3242591731706757 / 2 ^ 54 \<or> y = 5314247560297185 / 2 ^ 52 \<or> y = 306807724614615 / 2 ^ 47"
    using y(2) unfolding re by (simp only: list.set insert_iff empty_iff simp_thms)
  then have yv: "y = 306807724614615 / 2 ^ 47"
  proof (elim disjE)
    assume e: "y = 3242591731706757 / 2 ^ 54"
    from yge show ?thesis unfolding e rc by simp
  next
    assume e: "y = 5314247560297185 / 2 ^ 52"
    from yge show ?thesis unfolding e rc by simp
  qed
  have cc: "col_ink_count ?ink rows' 1 = 1" "col_ink_count ?ink rows' 0 = 0"
    "col_ink_count ?ink rows' 2 = 0"
    unfolding re by (simp_all add: col_ink_count_def)
  have "col_ink_count ?ink rows' 1 \<le> col_ink_count ?ink rows' x"
    using x(3) unfolding ce by simp
  then have xge: "1 \<le> col_ink_count ?ink rows' x" by (simp only: cc)
  have "x = 0 \<or> x = 1 \<or> x = 2"
    using x(2) unfolding ce by (simp only: list.set insert_iff empty_iff simp_thms)
  then have xv: "x = 1"
  proof (elim disjE)
    assume e: "x = 0"
    from xge show ?thesis unfolding e cc by simp
  next
    assume e: "x = 2"
    from xge show ?thesis unfolding e cc by simp
  qed
  have "scan_positions (3242591731706757 / 2 ^ 54) (fl (3242591731706757 / 2 ^ 54 + 2))
     = Some [3242591731706757 / 2 ^ 54, 5314247560297185 / 2 ^ 52, 306807724614615 / 2 ^ 47]"
    by (simp only: fraction_rows_end fraction_rows)
  then show ?thesis using y(1) x(1) yv xv by simp
qed

section \<open>Tracing\<close>

lemma nearest_loop_min:
  assumes "nearest_loop mode target rs (bestY, bestD) = (bY, bD)" and "bestD = \<bar>bestY - target\<bar>"
  shows "bD = \<bar>bY - target\<bar> \<and> bD \<le> bestD \<and>
         (\<forall>r \<in> set rs. bD \<le> \<bar>runRepresentativeY r mode - target\<bar>) \<and>
         (bY = bestY \<or> (\<exists>r \<in> set rs. bY = runRepresentativeY r mode))"
  using assms
proof (induction rs arbitrary: bestY bestD)
  case Nil
  then show ?case by auto
next
  case (Cons r rs)
  let ?y = "runRepresentativeY r mode"
  let ?d = "\<bar>?y - target\<bar>"
  show ?case
  proof (cases "?d < bestD")
    case True
    then have "nearest_loop mode target rs (?y, ?d) = (bY, bD)"
      using Cons.prems(1) by (simp add: Let_def)
    from Cons.IH[OF this refl] True show ?thesis by auto
  next
    case False
    then have "nearest_loop mode target rs (bestY, bestD) = (bY, bD)"
      using Cons.prems(1) by (simp add: Let_def)
    from Cons.IH[OF this Cons.prems(2)] False show ?thesis by auto
  qed
qed

lemma chooseNextY_Some:
  assumes "chooseNextY runs yPrev yPrev2 mode maxJump = Some y"
  shows "\<exists>r \<in> set runs. y = runRepresentativeY r mode \<and>
           \<bar>y - yPred_of yPrev yPrev2\<bar> \<le> maxJump \<and>
           (\<forall>r' \<in> set runs. \<bar>y - yPred_of yPrev yPrev2\<bar> \<le> \<bar>runRepresentativeY r' mode - yPred_of yPrev yPrev2\<bar>)"
proof -
  let ?t = "yPred_of yPrev yPrev2"
  from assms have ne: "runs \<noteq> []" by (auto simp add: chooseNextY_def)
  then obtain r0 rs where runs: "runs = r0 # rs" by (cases runs) auto
  let ?y0 = "runRepresentativeY r0 mode"
  obtain bY bD where loop: "nearest_loop mode ?t runs (?y0, \<bar>?y0 - ?t\<bar>) = (bY, bD)"
    by (cases "nearest_loop mode ?t runs (?y0, \<bar>?y0 - ?t\<bar>)") auto
  from nearest_loop_min[OF loop refl]
  have min: "bD = \<bar>bY - ?t\<bar>" "\<forall>r \<in> set runs. bD \<le> \<bar>runRepresentativeY r mode - ?t\<bar>"
    "bY = ?y0 \<or> (\<exists>r \<in> set runs. bY = runRepresentativeY r mode)" by auto
  have res: "chooseNextY runs yPrev yPrev2 mode maxJump = (if bD > maxJump then None else Some bY)"
    using loop by (simp add: chooseNextY_def runs Let_def yPred_of_def)
  with assms have "\<not> bD > maxJump" "y = bY" by (auto split: if_splits)
  moreover have "\<exists>r \<in> set runs. bY = runRepresentativeY r mode"
    using min(3) runs by auto
  ultimately show ?thesis using min(1,2) by auto
qed

lemma chooseNextY_None:
  "(chooseNextY runs yPrev yPrev2 mode maxJump = None) =
     (\<forall>r \<in> set runs. maxJump < \<bar>runRepresentativeY r mode - yPred_of yPrev yPrev2\<bar>)"
proof (cases runs)
  case Nil
  then show ?thesis by (simp add: chooseNextY_def)
next
  case (Cons r0 rs)
  let ?t = "yPred_of yPrev yPrev2"
  let ?y0 = "runRepresentativeY r0 mode"
  obtain bY bD where loop: "nearest_loop mode ?t runs (?y0, \<bar>?y0 - ?t\<bar>) = (bY, bD)"
    by (cases "nearest_loop mode ?t runs (?y0, \<bar>?y0 - ?t\<bar>)") auto
  from nearest_loop_min[OF loop refl]
  have min: "bD = \<bar>bY - ?t\<bar>" "\<forall>r \<in> set runs. bD \<le> \<bar>runRepresentativeY r mode - ?t\<bar>"
    "bY = ?y0 \<or> (\<exists>r \<in> set runs. bY = runRepresentativeY r mode)" by auto
  have res: "chooseNextY runs yPrev yPrev2 mode maxJump = (if bD > maxJump then None else Some bY)"
    using loop by (simp add: chooseNextY_def Cons Let_def yPred_of_def)
  have ex: "\<exists>r \<in> set runs. bY = runRepresentativeY r mode"
    using min(3) Cons by auto
  show ?thesis
  proof
    assume "chooseNextY runs yPrev yPrev2 mode maxJump = None"
    then have "maxJump < bD" using res by (auto split: if_splits)
    then show "\<forall>r \<in> set runs. maxJump < \<bar>runRepresentativeY r mode - ?t\<bar>"
      using min(2) by fastforce
  next
    assume "\<forall>r \<in> set runs. maxJump < \<bar>runRepresentativeY r mode - ?t\<bar>"
    then have "maxJump < bD" using ex min(1) by auto
    then show "chooseNextY runs yPrev yPrev2 mode maxJump = None" using res by simp
  qed
qed


lemma traceDir_cases:
  obtains
    (stop) "traceDir roi c th mode mj bl dir x y y2 = [\<lparr>pt_x = real_of_int x, pt_y = y\<rparr>]"
      and "x + dir_step dir < 0 \<or> width roi \<le> x + dir_step dir \<or>
           chooseNextY (findRunsInColumn roi (x + dir_step dir) c th bl) y y2 mode mj = None"
  | (step) yNext where "0 \<le> x + dir_step dir" and "x + dir_step dir < width roi"
      and "chooseNextY (findRunsInColumn roi (x + dir_step dir) c th bl) y y2 mode mj = Some yNext"
      and "traceDir roi c th mode mj bl dir x y y2 =
             \<lparr>pt_x = real_of_int x, pt_y = y\<rparr> #
             traceDir roi c th mode mj bl dir (x + dir_step dir) yNext (Some y)"
proof (cases "x + dir_step dir < 0 \<or> width roi \<le> x + dir_step dir")
  case True
  then show ?thesis
    by (intro stop) (subst traceDir.simps, auto simp add: Let_def)
next
  case False
  show ?thesis
  proof (cases "chooseNextY (findRunsInColumn roi (x + dir_step dir) c th bl) y y2 mode mj")
    case None
    with False show ?thesis
      by (intro stop) (subst traceDir.simps, auto simp add: Let_def)
  next
    case (Some yNext)
    with False show ?thesis
      by (intro step[of yNext]) (auto simp add: Let_def traceDir.simps[of roi c th mode mj bl dir x y y2])
  qed
qed

lemma traceDir_hd:
  "traceDir roi c th mode mj bl dir x y y2 \<noteq> [] \<and>
   hd (traceDir roi c th mode mj bl dir x y y2) = \<lparr>pt_x = real_of_int x, pt_y = y\<rparr>"
  by (cases rule: traceDir_cases[of roi c th mode mj bl dir x y y2]) auto

lemma traceDir_nth0:
  "traceDir roi c th mode mj bl dir x y y2 ! 0 = \<lparr>pt_x = real_of_int x, pt_y = y\<rparr>"
  by (cases rule: traceDir_cases[of roi c th mode mj bl dir x y y2]) auto

lemma traceDir_columns:
  "i < length (traceDir roi c th mode mj bl dir x y y2) \<Longrightarrow>
   pt_x (traceDir roi c th mode mj bl dir x y y2 ! i) = real_of_int (x + dir_step dir * int i)"
proof (induction i arbitrary: x y y2)
  case 0
  show ?case by (simp add: traceDir_nth0)
next
  case (Suc i)
  show ?case
  proof (cases rule: traceDir_cases[of roi c th mode mj bl dir x y y2])
    case stop
    with Suc.prems show ?thesis by simp
  next
    case (step yNext)
    with Suc.prems have "i < length (traceDir roi c th mode mj bl dir (x + dir_step dir) yNext (Some y))"
      by simp
    from Suc.IH[OF this] show ?thesis
      by (simp add: step(4) algebra_simps)
  qed
qed

lemma traceDir_steps:
  "Suc i < length (traceDir roi c th mode mj bl dir x y y2) \<Longrightarrow>
   0 \<le> x + dir_step dir * int (Suc i) \<and> x + dir_step dir * int (Suc i) < width roi \<and>
   chooseNextY (findRunsInColumn roi (x + dir_step dir * int (Suc i)) c th bl)
     (pt_y (traceDir roi c th mode mj bl dir x y y2 ! i))
     (prior2 y2 (traceDir roi c th mode mj bl dir x y y2) i) mode mj
   = Some (pt_y (traceDir roi c th mode mj bl dir x y y2 ! Suc i))"
proof (induction i arbitrary: x y y2)
  case 0
  show ?case
  proof (cases rule: traceDir_cases[of roi c th mode mj bl dir x y y2])
    case stop
    with 0 show ?thesis by simp
  next
    case (step yNext)
    have "traceDir roi c th mode mj bl dir (x + dir_step dir) yNext (Some y) ! 0
        = \<lparr>pt_x = real_of_int (x + dir_step dir), pt_y = yNext\<rparr>"
      by (rule traceDir_nth0)
    then show ?thesis
      using step(1-3) by (simp add: step(4) prior2_def)
  qed
next
  case (Suc i)
  show ?case
  proof (cases rule: traceDir_cases[of roi c th mode mj bl dir x y y2])
    case stop
    with Suc.prems show ?thesis by simp
  next
    case (step yNext)
    let ?T' = "traceDir roi c th mode mj bl dir (x + dir_step dir) yNext (Some y)"
    from step(4) Suc.prems have "Suc i < length ?T'" by simp
    note ih = Suc.IH[OF this]
    have col: "x + dir_step dir + dir_step dir * int (Suc i) = x + dir_step dir * int (Suc (Suc i))"
      by (simp add: algebra_simps)
    have pr: "prior2 (Some y) ?T' i = prior2 y2 (\<lparr>pt_x = real_of_int x, pt_y = y\<rparr> # ?T') (Suc i)"
      by (cases i) (simp_all add: prior2_def)
    show ?thesis
      using ih unfolding col pr by (simp add: step(4))
  qed
qed

lemma traceDir_stop:
  "x + dir_step dir * int (length (traceDir roi c th mode mj bl dir x y y2)) < 0 \<or>
   width roi \<le> x + dir_step dir * int (length (traceDir roi c th mode mj bl dir x y y2)) \<or>
   chooseNextY
     (findRunsInColumn roi (x + dir_step dir * int (length (traceDir roi c th mode mj bl dir x y y2))) c th bl)
     (pt_y (last (traceDir roi c th mode mj bl dir x y y2)))
     (prior2 y2 (traceDir roi c th mode mj bl dir x y y2)
        (length (traceDir roi c th mode mj bl dir x y y2) - 1)) mode mj
   = None"
proof (induction roi c th mode mj bl dir x y y2 rule: traceDir.induct)
  case (1 roi c th mode mj bl dir x y y2)
  show ?case
  proof (cases rule: traceDir_cases[of roi c th mode mj bl dir x y y2])
    case stop
    then show ?thesis by (auto simp add: prior2_def)
  next
    case (step yNext)
    let ?T' = "traceDir roi c th mode mj bl dir (x + dir_step dir) yNext (Some y)"
    have ne: "?T' \<noteq> []" using traceDir_hd by blast
    have ih: "x + dir_step dir + dir_step dir * int (length ?T') < 0 \<or>
       width roi \<le> x + dir_step dir + dir_step dir * int (length ?T') \<or>
       chooseNextY (findRunsInColumn roi (x + dir_step dir + dir_step dir * int (length ?T')) c th bl)
         (pt_y (last ?T')) (prior2 (Some y) ?T' (length ?T' - 1)) mode mj = None"
      using step(1,2,3) by (intro "1.IH"[of "x + dir_step dir" "findRunsInColumn roi (x + dir_step dir) c th bl" yNext]) auto
    have col: "x + dir_step dir + dir_step dir * int (length ?T') = x + dir_step dir * int (Suc (length ?T'))"
      by (simp add: algebra_simps)
    have pr: "prior2 (Some y) ?T' (length ?T' - 1)
        = prior2 y2 (\<lparr>pt_x = real_of_int x, pt_y = y\<rparr> # ?T') (length ?T')"
      using ne by (cases "length ?T'") (auto simp add: prior2_def nth_Cons')
    show ?thesis
      using ih ne unfolding col pr by (simp add: step(4))
  qed
qed


lemma example_pixels:
  "map (\<lambda>x. map (pixel_ok example_image x example_red 45 (\<lambda>p. False)) [0, 1, 2, 3]) [0, 1, 2]
     = [[True, False, False, False], [True, False, False, False], [False, False, False, True]]"
  by (simp add: pixel_ok_def example_image_def example_red_def js_get_def distRgb_def Let_def)

lemma example_runs:
  "findRunsInColumn example_image 0 example_red 45 (\<lambda>p. False) = [\<lparr>ymin = 0, ymax = 0\<rparr>]"
  "findRunsInColumn example_image 1 example_red 45 (\<lambda>p. False) = [\<lparr>ymin = 0, ymax = 0\<rparr>]"
  "findRunsInColumn example_image 2 example_red 45 (\<lambda>p. False) = [\<lparr>ymin = 3, ymax = 3\<rparr>]"
  using example_pixels
  by (simp_all add: findRunsInColumn_def example_image_def
      upto.simps[of 0] upto.simps[of 1] upto.simps[of 2] upto.simps[of 3] upto.simps[of 4])

lemma example_width: "width example_image = 3" "height example_image = 4"
  by (simp_all add: example_image_def)

lemma traceDir_stops_on_None:
  "chooseNextY (findRunsInColumn roi (x + dir_step dir) c th bl) yPrev yPrev2 mode maxJump = None \<Longrightarrow>
   traceDir roi c th mode maxJump bl dir x yPrev yPrev2 = [\<lparr>pt_x = real_of_int x, pt_y = yPrev\<rparr>]"
  by (cases rule: traceDir_cases[of roi c th mode maxJump bl dir x yPrev yPrev2]) auto

text \<open>
  C5: \<open>chooseNextY\<close> answers with the representative Y of a run of the column that is
  closest to the predicted Y, unless that closest distance exceeds \<open>maxJump\<close> (or the
  column has no run), when it answers nothing; and on no answer the trace consists of
  the current point only. So a trace visits consecutive columns from its origin, every
  point after the first is the answer of \<open>chooseNextY\<close> for the next column, given the one
  or two points before it, and the column after the last point is outside the image
  or has no answer.
\<close>

theorem jump_limited_trace:
  "(chooseNextY runs yPrev yPrev2 mode maxJump = None) =
     (\<forall>r \<in> set runs. maxJump < \<bar>runRepresentativeY r mode - yPred_of yPrev yPrev2\<bar>) \<and>
   (\<forall>y. chooseNextY runs yPrev yPrev2 mode maxJump = Some y \<longrightarrow>
      (\<exists>r \<in> set runs. y = runRepresentativeY r mode \<and>
         \<bar>y - yPred_of yPrev yPrev2\<bar> \<le> maxJump \<and>
         (\<forall>r' \<in> set runs. \<bar>y - yPred_of yPrev yPrev2\<bar>
            \<le> \<bar>runRepresentativeY r' mode - yPred_of yPrev yPrev2\<bar>))) \<and>
   (chooseNextY (findRunsInColumn roi (x + dir_step dir) c th bl) yPrev yPrev2 mode maxJump = None \<longrightarrow>
      traceDir roi c th mode maxJump bl dir x yPrev yPrev2 = [\<lparr>pt_x = real_of_int x, pt_y = yPrev\<rparr>]) \<and>
   traceDir roi c th mode maxJump bl dir x0 y0 None \<noteq> [] \<and>
   traceDir roi c th mode maxJump bl dir x0 y0 None ! 0 = \<lparr>pt_x = real_of_int x0, pt_y = y0\<rparr> \<and>
   (\<forall>i < length (traceDir roi c th mode maxJump bl dir x0 y0 None).
      pt_x (traceDir roi c th mode maxJump bl dir x0 y0 None ! i) = real_of_int (x0 + dir_step dir * int i)) \<and>
   (\<forall>i. Suc i < length (traceDir roi c th mode maxJump bl dir x0 y0 None) \<longrightarrow>
      0 \<le> x0 + dir_step dir * int (Suc i) \<and> x0 + dir_step dir * int (Suc i) < width roi \<and>
      chooseNextY (findRunsInColumn roi (x0 + dir_step dir * int (Suc i)) c th bl)
        (pt_y (traceDir roi c th mode maxJump bl dir x0 y0 None ! i))
        (prior2 None (traceDir roi c th mode maxJump bl dir x0 y0 None) i) mode maxJump
      = Some (pt_y (traceDir roi c th mode maxJump bl dir x0 y0 None ! Suc i))) \<and>
   (x0 + dir_step dir * int (length (traceDir roi c th mode maxJump bl dir x0 y0 None)) < 0 \<or>
    width roi \<le> x0 + dir_step dir * int (length (traceDir roi c th mode maxJump bl dir x0 y0 None)) \<or>
    chooseNextY
      (findRunsInColumn roi
         (x0 + dir_step dir * int (length (traceDir roi c th mode maxJump bl dir x0 y0 None))) c th bl)
      (pt_y (last (traceDir roi c th mode maxJump bl dir x0 y0 None)))
      (prior2 None (traceDir roi c th mode maxJump bl dir x0 y0 None)
         (length (traceDir roi c th mode maxJump bl dir x0 y0 None) - 1)) mode maxJump
    = None)"
proof -
  let ?T = "traceDir roi c th mode maxJump bl dir x0 y0 None"
  have a: "\<forall>y. chooseNextY runs yPrev yPrev2 mode maxJump = Some y \<longrightarrow>
      (\<exists>r \<in> set runs. y = runRepresentativeY r mode \<and>
         \<bar>y - yPred_of yPrev yPrev2\<bar> \<le> maxJump \<and>
         (\<forall>r' \<in> set runs. \<bar>y - yPred_of yPrev yPrev2\<bar>
            \<le> \<bar>runRepresentativeY r' mode - yPred_of yPrev yPrev2\<bar>))"
    using chooseNextY_Some[of runs yPrev yPrev2 mode maxJump] by blast
  have b: "\<forall>i < length ?T. pt_x (?T ! i) = real_of_int (x0 + dir_step dir * int i)"
    using traceDir_columns[of _ roi c th mode maxJump bl dir x0 y0 None] by blast
  have s: "\<forall>i. Suc i < length ?T \<longrightarrow>
      0 \<le> x0 + dir_step dir * int (Suc i) \<and> x0 + dir_step dir * int (Suc i) < width roi \<and>
      chooseNextY (findRunsInColumn roi (x0 + dir_step dir * int (Suc i)) c th bl)
        (pt_y (?T ! i)) (prior2 None ?T i) mode maxJump = Some (pt_y (?T ! Suc i))"
    using traceDir_steps[of _ roi c th mode maxJump bl dir x0 y0 None] by blast
  show ?thesis
    using chooseNextY_None[of runs yPrev yPrev2 mode maxJump] a
      traceDir_stops_on_None[of roi x dir c th bl yPrev yPrev2 mode maxJump]
      traceDir_hd[of roi c th mode maxJump bl dir x0 y0 None]
      traceDir_nth0[of roi c th mode maxJump bl dir x0 y0 None] b s
      traceDir_stop[of x0 dir roi c th mode maxJump bl y0 None]
    by blast
qed

lemma example_trace:
  "traceDir example_image example_red 45 Centerline 2 (\<lambda>p. False) Plus 0 0 None
     = [\<lparr>pt_x = 0, pt_y = 0\<rparr>, \<lparr>pt_x = 1, pt_y = 0\<rparr>]"
  by (simp add: traceDir.simps example_runs chooseNextY_def runRepresentativeY_def Let_def example_width)

theorem jump_limited_trace_witness:
  "traceDir example_image example_red 45 Centerline 2 (\<lambda>p. False) Plus 0 0 None
     = [\<lparr>pt_x = 0, pt_y = 0\<rparr>, \<lparr>pt_x = 1, pt_y = 0\<rparr>] \<and>
   findRunsInColumn example_image 2 example_red 45 (\<lambda>p. False) = [\<lparr>ymin = 3, ymax = 3\<rparr>] \<and>
   chooseNextY (findRunsInColumn example_image 2 example_red 45 (\<lambda>p. False)) 0 (Some 0) Centerline 2 = None \<and>
   chooseNextY (findRunsInColumn example_image 1 example_red 45 (\<lambda>p. False)) 0 None Centerline 2 = Some 0"
  using jump_limited_trace[of "[\<lparr>ymin = 3, ymax = 3\<rparr>]" 0 "Some 0" Centerline 2
      example_image 1 Plus example_red 45 "\<lambda>p. False" 0 0]
  by (simp add: example_trace example_runs prior2_def yPred_of_def runRepresentativeY_def chooseNextY_def)

section \<open>The merged polyline\<close>

text \<open>
  The merge: the \<open>k\<close>-th point of the leftward trace reversed, followed by the rightward
  trace without its first point, lies in the \<open>k\<close>-th column from the leftmost one.
\<close>

lemma traceDir_Plus_sorted:
  "sorted_wrt (<) (map pt_x (traceDir roi c th mode mj bl Plus x y y2))"
  by (simp add: sorted_wrt_iff_nth_less traceDir_columns)

lemma merged_columns:
  assumes "k < length (rev (traceDir roi c th mode mj bl Minus x y y2) @ tl (traceDir roi c th mode mj bl Plus x y y2'))"
  shows "pt_x ((rev (traceDir roi c th mode mj bl Minus x y y2) @ tl (traceDir roi c th mode mj bl Plus x y y2')) ! k)
       = real_of_int (x - int (length (traceDir roi c th mode mj bl Minus x y y2)) + 1 + int k)"
proof -
  let ?L = "traceDir roi c th mode mj bl Minus x y y2"
  let ?R = "traceDir roi c th mode mj bl Plus x y y2'"
  show ?thesis
  proof (cases "k < length ?L")
    case True
    then have "(rev ?L @ tl ?R) ! k = ?L ! (length ?L - Suc k)"
      by (simp add: nth_append rev_nth)
    moreover have "length ?L - Suc k < length ?L" using True by simp
    ultimately show ?thesis
      using traceDir_columns[of "length ?L - Suc k" roi c th mode mj bl Minus x y y2] True
      by (simp add: of_nat_diff)
  next
    case False
    then have k: "k - length ?L < length (tl ?R)" using assms by simp
    then have "Suc (k - length ?L) < length ?R" by simp
    moreover have "(rev ?L @ tl ?R) ! k = ?R ! Suc (k - length ?L)"
      using False k by (simp add: nth_append nth_tl)
    ultimately show ?thesis
      using traceDir_columns[of "Suc (k - length ?L)" roi c th mode mj bl Plus x y y2'] False
      by (simp add: of_nat_diff)
  qed
qed

lemma merged_sorted:
  "sorted_wrt (<) (map pt_x (rev (traceDir roi c th mode mj bl Minus x y y2) @ tl (traceDir roi c th mode mj bl Plus x y y2')))"
  unfolding sorted_wrt_iff_nth_less
  using merged_columns[of _ roi c th mode mj bl x y y2 y2']
  by (auto simp del: length_append length_rev length_tl map_append rev_map simp add: nth_map)


lemma traceCurveWithSeeds_nonempty:
  assumes "traceCurveWithSeeds roi seeds c th mode mj bl \<noteq> []"
  shows "\<exists>y0. chooseInitialY
           (findRunsInColumn roi (clamp (js_round (pt_x (sort_key pt_x seeds ! 1))) 0 (width roi - 1)) c th bl)
           (pt_y (sort_key pt_x seeds ! 1)) mode = Some y0 \<and>
         traceCurveWithSeeds roi seeds c th mode mj bl =
           rev (traceDir roi c th mode mj bl Minus
                  (clamp (js_round (pt_x (sort_key pt_x seeds ! 1))) 0 (width roi - 1)) y0 None) @
           tl (traceDir roi c th mode mj bl Plus
                  (clamp (js_round (pt_x (sort_key pt_x seeds ! 1))) 0 (width roi - 1)) y0 None)"
  using assms
  by (auto simp add: traceCurveWithSeeds_def Let_def drop_Suc split: if_splits option.splits)

text \<open>
  C9: a non-empty result of \<open>traceCurveWithSeeds\<close> is the leftward trace from the origin
  reversed, followed by the rightward trace from the same origin without its first
  point, the origin, which both traces start with: one point less than the two traces
  together. Its points have strictly increasing x coordinates.
\<close>

theorem merged_trace_monotonic:
  assumes "traceCurveWithSeeds roi seeds c th mode mj bl \<noteq> []"
  shows "(\<exists>y0. chooseInitialY
            (findRunsInColumn roi (clamp (js_round (pt_x (sort_key pt_x seeds ! 1))) 0 (width roi - 1)) c th bl)
            (pt_y (sort_key pt_x seeds ! 1)) mode = Some y0 \<and>
          hd (traceDir roi c th mode mj bl Minus
                (clamp (js_round (pt_x (sort_key pt_x seeds ! 1))) 0 (width roi - 1)) y0 None)
            = hd (traceDir roi c th mode mj bl Plus
                (clamp (js_round (pt_x (sort_key pt_x seeds ! 1))) 0 (width roi - 1)) y0 None) \<and>
          traceCurveWithSeeds roi seeds c th mode mj bl =
            rev (traceDir roi c th mode mj bl Minus
                   (clamp (js_round (pt_x (sort_key pt_x seeds ! 1))) 0 (width roi - 1)) y0 None) @
            tl (traceDir roi c th mode mj bl Plus
                   (clamp (js_round (pt_x (sort_key pt_x seeds ! 1))) 0 (width roi - 1)) y0 None) \<and>
          Suc (length (traceCurveWithSeeds roi seeds c th mode mj bl)) =
            length (traceDir roi c th mode mj bl Minus
                   (clamp (js_round (pt_x (sort_key pt_x seeds ! 1))) 0 (width roi - 1)) y0 None) +
            length (traceDir roi c th mode mj bl Plus
                   (clamp (js_round (pt_x (sort_key pt_x seeds ! 1))) 0 (width roi - 1)) y0 None)) \<and>
         sorted_wrt (<) (map pt_x (traceCurveWithSeeds roi seeds c th mode mj bl))"
proof -
  let ?x0 = "clamp (js_round (pt_x (sort_key pt_x seeds ! 1))) 0 (width roi - 1)"
  obtain y0 where y0: "chooseInitialY (findRunsInColumn roi ?x0 c th bl) (pt_y (sort_key pt_x seeds ! 1)) mode = Some y0"
    and eq: "traceCurveWithSeeds roi seeds c th mode mj bl =
           rev (traceDir roi c th mode mj bl Minus ?x0 y0 None) @ tl (traceDir roi c th mode mj bl Plus ?x0 y0 None)"
    using traceCurveWithSeeds_nonempty[OF assms] by blast
  have hd: "hd (traceDir roi c th mode mj bl Minus ?x0 y0 None) = hd (traceDir roi c th mode mj bl Plus ?x0 y0 None)"
    using traceDir_hd[of roi c th mode mj bl Minus ?x0 y0 None] traceDir_hd[of roi c th mode mj bl Plus ?x0 y0 None]
    by simp
  have "traceDir roi c th mode mj bl Plus ?x0 y0 None \<noteq> []"
    using traceDir_hd by blast
  then have len: "Suc (length (traceCurveWithSeeds roi seeds c th mode mj bl)) =
      length (traceDir roi c th mode mj bl Minus ?x0 y0 None) + length (traceDir roi c th mode mj bl Plus ?x0 y0 None)"
    unfolding eq by (cases "traceDir roi c th mode mj bl Plus ?x0 y0 None") simp_all
  have "sorted_wrt (<) (map pt_x (traceCurveWithSeeds roi seeds c th mode mj bl))"
    unfolding eq by (rule merged_sorted)
  with y0 eq hd len show ?thesis by blast
qed

lemma example_left:
  "traceDir example_image example_red 45 Centerline 5 (\<lambda>p. False) Minus 1 0 None
     = [\<lparr>pt_x = 1, pt_y = 0\<rparr>, \<lparr>pt_x = 0, pt_y = 0\<rparr>]"
  by (simp add: traceDir.simps example_runs chooseNextY_def runRepresentativeY_def Let_def example_width)

lemma example_right:
  "traceDir example_image example_red 45 Centerline 5 (\<lambda>p. False) Plus 1 0 None
     = [\<lparr>pt_x = 1, pt_y = 0\<rparr>, \<lparr>pt_x = 2, pt_y = 3\<rparr>]"
  by (simp add: traceDir.simps example_runs chooseNextY_def runRepresentativeY_def Let_def example_width)

lemma example_curve:
  "traceCurveWithSeeds example_image
     [\<lparr>pt_x = 19 / 10, pt_y = 3\<rparr>, \<lparr>pt_x = 1 / 5, pt_y = 0\<rparr>, \<lparr>pt_x = 11 / 10, pt_y = 2 / 5\<rparr>]
     example_red 45 Centerline 5 (\<lambda>p. False)
   = [\<lparr>pt_x = 0, pt_y = 0\<rparr>, \<lparr>pt_x = 1, pt_y = 0\<rparr>, \<lparr>pt_x = 2, pt_y = 3\<rparr>]"
  by (simp add: traceCurveWithSeeds_def Let_def example_width js_round_def clamp_def example_runs
      chooseInitialY_def runRepresentativeY_def example_left example_right)

theorem merged_trace_monotonic_witness:
  "traceCurveWithSeeds example_image
     [\<lparr>pt_x = 19 / 10, pt_y = 3\<rparr>, \<lparr>pt_x = 1 / 5, pt_y = 0\<rparr>, \<lparr>pt_x = 11 / 10, pt_y = 2 / 5\<rparr>]
     example_red 45 Centerline 5 (\<lambda>p. False)
   = [\<lparr>pt_x = 0, pt_y = 0\<rparr>, \<lparr>pt_x = 1, pt_y = 0\<rparr>, \<lparr>pt_x = 2, pt_y = 3\<rparr>] \<and>
   sorted_wrt (<) (map pt_x (traceCurveWithSeeds example_image
     [\<lparr>pt_x = 19 / 10, pt_y = 3\<rparr>, \<lparr>pt_x = 1 / 5, pt_y = 0\<rparr>, \<lparr>pt_x = 11 / 10, pt_y = 2 / 5\<rparr>]
     example_red 45 Centerline 5 (\<lambda>p. False)))"
proof -
  have ne: "traceCurveWithSeeds example_image
     [\<lparr>pt_x = 19 / 10, pt_y = 3\<rparr>, \<lparr>pt_x = 1 / 5, pt_y = 0\<rparr>, \<lparr>pt_x = 11 / 10, pt_y = 2 / 5\<rparr>]
     example_red 45 Centerline 5 (\<lambda>p. False) \<noteq> []"
    by (simp add: example_curve)
  from merged_trace_monotonic[OF ne] show ?thesis
    using example_curve by blast
qed

end
